theory Spec2Isabelle
  imports Main "HOL-Library.Word" "HOL-Library.AList"
begin

section \<open>Models of the Go standard library functions the sources call\<close>

subsection \<open>Package \<open>strings\<close>\<close>

text \<open>Go strings are byte sequences; a \<^typ>\<open>string\<close> is the list of those bytes.\<close>

definition strings_HasSuffix :: "string \<Rightarrow> string \<Rightarrow> bool" where
  "strings_HasSuffix s suffix \<longleftrightarrow>
     length suffix \<le> length s \<and> drop (length s - length suffix) s = suffix"

definition strings_HasPrefix :: "string \<Rightarrow> string \<Rightarrow> bool" where
  "strings_HasPrefix s prefix \<longleftrightarrow> take (length prefix) s = prefix"

text \<open>\<open>strings.IndexRune(s, c)\<close> for an ASCII rune \<open>c\<close>: the index of the first
  occurrence, or \<open>-1\<close>.\<close>

fun strings_IndexRune :: "string \<Rightarrow> char \<Rightarrow> int" where
  "strings_IndexRune [] c = - 1"
| "strings_IndexRune (x # xs) c =
     (if x = c then 0
      else (let i = strings_IndexRune xs c in if i < 0 then - 1 else i + 1))"

text \<open>\<open>strings.Index(s, substr)\<close>: the byte offset of the first occurrence of
  \<open>substr\<close>; \<open>None\<close> stands for Go's \<open>-1\<close>.\<close>

fun strings_Index :: "string \<Rightarrow> string \<Rightarrow> nat option" where
  "strings_Index [] substr = (if substr = [] then Some 0 else None)"
| "strings_Index (x # xs) substr =
     (if strings_HasPrefix (x # xs) substr then Some 0
      else map_option Suc (strings_Index xs substr))"

definition strings_Contains :: "string \<Rightarrow> string \<Rightarrow> bool" where
  "strings_Contains s substr \<longleftrightarrow> strings_Index s substr \<noteq> None"

text \<open>\<open>strings.Replace(s, old, new, n)\<close> for \<open>n \<ge> 0\<close> and a non-empty \<open>old\<close>:
  the first \<open>n\<close> non-overlapping occurrences of \<open>old\<close>, found from the left, are
  replaced by \<open>new\<close>.\<close>

fun strings_Replace :: "string \<Rightarrow> string \<Rightarrow> string \<Rightarrow> nat \<Rightarrow> string" where
  "strings_Replace s old new 0 = s"
| "strings_Replace s old new (Suc n) =
     (if old = new then s
      else (case strings_Index s old of
              None \<Rightarrow> s
            | Some j \<Rightarrow> take j s @ new @ strings_Replace (drop (j + length old) s) old new n))"

text \<open>\<open>strings.TrimRight(s, cutset)\<close>: \<open>s\<close> without its trailing bytes that are in
  \<open>cutset\<close>.\<close>

definition strings_TrimRight :: "string \<Rightarrow> string \<Rightarrow> string" where
  "strings_TrimRight s cutset = rev (dropWhile (\<lambda>c. c \<in> set cutset) (rev s))"

subsection \<open>Package \<open>regexp\<close>: sequences of quantified character classes\<close>

text \<open>The pattern of the collector is a sequence of single-character classes, each taken
  once or under a greedy \<open>+\<close> or \<open>*\<close>. Go's \<open>regexp\<close> returns the leftmost match and,
  among the matches starting there, the one a backtracking search finds first;
  \<open>re_match\<close> is that backtracking search at the head of the input and returns the
  unconsumed rest.\<close>

datatype cclass = Lit char | Upper | WordCh | AnyNoNL

fun cmatch :: "cclass \<Rightarrow> char \<Rightarrow> bool" where
  "cmatch (Lit a) c \<longleftrightarrow> c = a"
| "cmatch Upper c \<longleftrightarrow> 65 \<le> (of_char c :: nat) \<and> (of_char c :: nat) \<le> 90"
| "cmatch WordCh c \<longleftrightarrow>
     (48 \<le> (of_char c :: nat) \<and> (of_char c :: nat) \<le> 57) \<or>
     (65 \<le> (of_char c :: nat) \<and> (of_char c :: nat) \<le> 90) \<or>
     (97 \<le> (of_char c :: nat) \<and> (of_char c :: nat) \<le> 122) \<or> c = CHR ''_''"
| "cmatch AnyNoNL c \<longleftrightarrow> c \<noteq> CHR 0x0A"

datatype item = One cclass | Plus cclass | Star cclass

type_synonym regex = "item list"

fun re_match :: "regex \<Rightarrow> string \<Rightarrow> string option" where
  "re_match [] s = Some s"
| "re_match (One k # r) [] = None"
| "re_match (One k # r) (x # xs) = (if cmatch k x then re_match r xs else None)"
| "re_match (Plus k # r) [] = None"
| "re_match (Plus k # r) (x # xs) = (if cmatch k x then re_match (Star k # r) xs else None)"
| "re_match (Star k # r) [] = re_match r []"
| "re_match (Star k # r) (x # xs) =
     (if cmatch k x
      then (case re_match (Star k # r) xs of
              Some rest \<Rightarrow> Some rest
            | None \<Rightarrow> re_match r (x # xs))
      else re_match r (x # xs))"

text \<open>\<open>re.FindAllString(s, -1)\<close>: the successive non-overlapping leftmost matches. The
  flag says that a match ended exactly where the search now stands: Go drops an empty
  match there. After an empty match the search moves on by one character.\<close>

fun FindAll :: "regex \<Rightarrow> bool \<Rightarrow> string \<Rightarrow> string list" where
  "FindAll re adj s =
     (case re_match re s of
        None \<Rightarrow> (case s of [] \<Rightarrow> [] | x # xs \<Rightarrow> FindAll re False xs)
      | Some rest \<Rightarrow>
          if length rest < length s
          then take (length s - length rest) s # FindAll re True rest
          else (if adj then [] else [[]]) @
               (case s of [] \<Rightarrow> [] | x # xs \<Rightarrow> FindAll re False xs))"

declare FindAll.simps [simp del]

definition FindAllString :: "regex \<Rightarrow> string \<Rightarrow> string list" where
  "FindAllString re s = FindAll re False s"

subsection \<open>Package \<open>fmt\<close>\<close>

text \<open>\<open>fmt.Sprintf\<close> for formats whose only verb is \<open>%s\<close>, with one string operand for
  each verb (every call in the sources is of this kind).\<close>

fun fmt_Sprintf :: "string \<Rightarrow> string list \<Rightarrow> string" where
  "fmt_Sprintf [] as = []"
| "fmt_Sprintf (c # f) as =
     (case (c # f, as) of
        (CHR ''%'' # CHR ''s'' # f', a # as') \<Rightarrow> a @ fmt_Sprintf f' as'
      | _ \<Rightarrow> c # fmt_Sprintf f as)"

text \<open>\<open>fmt.Sprintln\<close> on string operands: the operands separated by single spaces,
  then a newline.\<close>

fun spaced :: "string list \<Rightarrow> string" where
  "spaced [] = []"
| "spaced [a] = a"
| "spaced (a # b # r) = a @ '' '' @ spaced (b # r)"

definition fmt_Sprintln :: "string list \<Rightarrow> string" where
  "fmt_Sprintln as = spaced as @ [CHR 0x0A]"

section \<open>The documentation generator: \<open>internal/gendoc/main.go\<close>\<close>

subsection \<open>Helpers of the repository's other packages\<close>

datatype error =
    SliceBounds      \<comment> \<open>runtime panic: slice bounds out of range\<close>
  | ReadFailed string \<comment> \<open>panic of \<open>fsutil.MustReadFile\<close>\<close>
  | NilDeref         \<comment> \<open>runtime panic: nil pointer dereference\<close>

text \<open>The file system the generator reads: the contents of every readable file.\<close>

type_synonym filesys = "string \<rightharpoonup> string"

text \<open>Modelled from the spec: \<open>arrutil.StringsHas\<close> is not among the sources; the spec
  says a path is dropped when its subdirectory name ``is in the hidden-package set''.\<close>

definition arrutil_StringsHas :: "string list \<Rightarrow> string \<Rightarrow> bool" where
  "arrutil_StringsHas ss val \<longleftrightarrow> val \<in> set ss"

text \<open>Modelled from the spec: \<open>strutil.UpperFirst\<close> is not among the sources; the spec
  says the heading carries the display name with its ``first letter upper-cased''.\<close>

definition strutil_UpperFirst :: "string \<Rightarrow> string" where
  "strutil_UpperFirst s =
     (case s of
        [] \<Rightarrow> []
      | c # cs \<Rightarrow>
          if 97 \<le> (of_char c :: nat) \<and> (of_char c :: nat) \<le> 122
          then char_of ((of_char c :: nat) - 32) # cs
          else s)"

text \<open>Modelled from the spec: \<open>fsutil.MustReadFile\<close> is not among the sources; the spec
  says that a required file which cannot be read is fatal and aborts the run.\<close>

definition fsutil_MustReadFile :: "filesys \<Rightarrow> string \<Rightarrow> error + string" where
  "fsutil_MustReadFile fs p = (case fs p of None \<Rightarrow> Inl (ReadFailed p) | Some body \<Rightarrow> Inr body)"

text \<open>Modelled from the spec: \<open>fsutil.ReadExistFile\<close> is not among the sources; the spec
  says that a fragment file which is absent or unreadable yields empty text and no
  error.\<close>

definition fsutil_ReadExistFile :: "filesys \<Rightarrow> string \<Rightarrow> string" where
  "fsutil_ReadExistFile fs p = (case fs p of None \<Rightarrow> [] | Some body \<Rightarrow> body)"

subsection \<open>Package variables and options\<close>

definition hidden :: "string list" where
  "hidden = [''netutil'', ''numutil'', ''internal'']"

definition nameMap :: "string \<rightharpoonup> string" where
  "nameMap = map_of
     [(''arr'', ''array/Slice''), (''str'', ''string''), (''sys'', ''system''),
      (''math'', ''math/Number''), (''fs'', ''fileSystem''), (''fmt'', ''formatting''),
      (''test'', ''testing''), (''dump'', ''dump''), (''structs'', ''struct''),
      (''json'', ''JSON''), (''cli'', ''CLI''), (''env'', ''ENV''), (''std'', ''standard'')]"

record genOptsSt =
  lang :: string
  output_opt :: string
  template :: string
  tplDir :: string

definition partDocTplS :: string where
  "partDocTplS = ''part-%s-s%s.md''"

definition partDocTplE :: string where
  "partDocTplE = ''part-%s%s.md''"

definition reg :: regex where
  "reg = map (\<lambda>c. One (Lit c)) ''func '' @
         [One Upper, Plus WordCh, One (Lit CHR ''(''), Star AnyNoNL,
          One (Lit CHR '')''), Star AnyNoNL]"

subsection \<open>The output buffer\<close>

text \<open>The buffer is kept as the sequence of the writes made to it. Each write carries a
  label for the statement of \<open>collectPgkFunc\<close> or \<open>doWriteDoc2buf\<close> that made it; the
  bytes in the buffer are the concatenation of the written texts.\<close>

datatype mark = Heading | PkgLine | Doc | FenceOpen | FenceClose | SourceAt | Sig

type_synonym buffer = "(mark \<times> string) list"

definition bufString :: "buffer \<Rightarrow> string" where
  "bufString b = concat (map snd b)"

definition bufWritef :: "mark \<Rightarrow> buffer \<Rightarrow> string \<Rightarrow> string list \<Rightarrow> buffer" where
  "bufWritef m b f as = b @ [(m, fmt_Sprintf f as)]"

definition bufWriteln :: "mark \<Rightarrow> buffer \<Rightarrow> string list \<Rightarrow> buffer" where
  "bufWriteln m b as = b @ [(m, fmt_Sprintln as)]"

definition doWriteDoc2buf :: "genOptsSt \<Rightarrow> filesys \<Rightarrow> buffer \<Rightarrow> string \<Rightarrow> buffer \<times> bool" where
  "doWriteDoc2buf opts fs b filename =
     (let partFile = tplDir opts @ ''/'' @ filename;
          partBody = fsutil_ReadExistFile fs partFile
      in if length partBody > 0 then (b @ [(Doc, fmt_Sprintln [partBody])], True)
         else (b, False))"

definition bufWriteDoc :: "genOptsSt \<Rightarrow> filesys \<Rightarrow> buffer \<Rightarrow> string \<Rightarrow> string \<Rightarrow> buffer" where
  "bufWriteDoc opts fs b partNameTpl pkgName =
     (let lng = (if lang opts \<noteq> ''en'' then ''.'' @ lang opts else []);
          filename = fmt_Sprintf partNameTpl [pkgName, lng]
      in case doWriteDoc2buf opts fs b filename of
           (b', True) \<Rightarrow> b'
         | (b', False) \<Rightarrow> fst (doWriteDoc2buf opts fs b' (fmt_Sprintf partNameTpl [pkgName, []])))"

subsection \<open>\<open>collectPgkFunc\<close>\<close>

text \<open>The variables of \<open>collectPgkFunc\<close> that live across iterations, the package
  variable \<open>pkgNames\<close>, and the list of the files the loop has passed to
  \<open>fsutil.MustReadFile\<close>. The Go maps are association lists with distinct keys, so that
  \<open>len\<close> is the length of the list.\<close>

record collector =
  buf :: buffer
  pkgFuncs :: "(string \<times> string list) list"
  name :: string
  dirname :: string
  pkgNames :: "(string \<times> string) list"
  reads :: "string list"

definition slice_to :: "string \<Rightarrow> int \<Rightarrow> error + string" where
  \<comment> \<open>\<open>s[:i]\<close>\<close>
  "slice_to s i = (if i < 0 \<or> int (length s) < i then Inl SliceBounds else Inr (take (nat i) s))"

text \<open>Lines 213--220: the name shown for the package directory \<open>dir\<close>.\<close>

definition displayName :: "string \<Rightarrow> string" where
  "displayName dir =
     (let nm = (if strings_HasSuffix dir ''util'' then take (length dir - 4) dir else dir)
      in case nameMap nm of Some setTitle \<Rightarrow> setTitle | None \<Rightarrow> nm)"

text \<open>The \<open>else\<close> branch of lines 204--231: the first file of a package closes the
  section before it, if there is one, and opens its own.\<close>

definition openSection :: "genOptsSt \<Rightarrow> filesys \<Rightarrow> string \<Rightarrow> string \<Rightarrow> collector \<Rightarrow> collector" where
  "openSection opts fs dir pkgPath st =
     (let b0 = (if length (pkgFuncs st) > 0
                then bufWriteDoc opts fs (bufWriteln FenceClose (buf st) [''```''])
                       partDocTplE (dirname st)
                else buf st);
          nm = displayName dir;
          b1 = bufWriteln Heading b0 [''\<newline>###'', strutil_UpperFirst nm];
          b2 = bufWritef PkgLine b1 ''\<newline>> Package `%s`\<newline>\<newline>'' [pkgPath];
          b3 = bufWriteDoc opts fs b2 partDocTplS nm;
          b4 = bufWriteln FenceOpen b3 [''```go'']
      in st\<lparr>buf := b4, pkgFuncs := AList.update pkgPath [''xx''] (pkgFuncs st),
             name := nm, dirname := dir\<rparr>)"

text \<open>Lines 234--242: the file is read and its matches are written.\<close>

definition writeFuncs :: "string \<Rightarrow> string \<Rightarrow> buffer \<Rightarrow> buffer" where
  "writeFuncs filename text b =
     (let lines = FindAllString reg text
      in if length lines > 0
         then foldl (\<lambda>b' line. bufWriteln Sig b' [strings_TrimRight line ''{ ''])
                (bufWriteln SourceAt b [''// source at'', filename]) lines
         else b)"

text \<open>One iteration of the loop over \<open>ms\<close>; \<open>continue\<close> returns the state as it is.\<close>

definition collectFile :: "genOptsSt \<Rightarrow> filesys \<Rightarrow> string \<Rightarrow> collector \<Rightarrow> string \<Rightarrow> error + collector" where
  "collectFile opts fs basePkg st filename =
     (if strings_HasSuffix filename ''_test.go'' then Inr st
      else if strings_HasSuffix filename ''_windows.go'' then Inr st
      else
        (case slice_to filename (strings_IndexRune filename CHR ''/'') of
           Inl e \<Rightarrow> Inl e
         | Inr dir \<Rightarrow>
             if arrutil_StringsHas hidden dir then Inr st
             else
               (let pkgPath = basePkg @ ''/'' @ dir;
                    st1 = st\<lparr>pkgNames := AList.update dir pkgPath (pkgNames st)\<rparr>;
                    st2 = (case map_of (pkgFuncs st1) pkgPath of
                             Some ss \<Rightarrow>
                               st1\<lparr>pkgFuncs := AList.update pkgPath (ss @ [''added'']) (pkgFuncs st1)\<rparr>
                           | None \<Rightarrow> openSection opts fs dir pkgPath st1);
                    st3 = st2\<lparr>reads := reads st2 @ [filename]\<rparr>
                in case fsutil_MustReadFile fs filename of
                     Inl e \<Rightarrow> Inl e
                   | Inr text \<Rightarrow> Inr (st3\<lparr>buf := writeFuncs filename text (buf st3)\<rparr>))))"

fun collectLoop :: "genOptsSt \<Rightarrow> filesys \<Rightarrow> string \<Rightarrow> collector \<Rightarrow> string list \<Rightarrow> error + collector" where
  "collectLoop opts fs basePkg st [] = Inr st"
| "collectLoop opts fs basePkg st (filename # ms) =
     (case collectFile opts fs basePkg st filename of
        Inl e \<Rightarrow> Inl e
      | Inr st' \<Rightarrow> collectLoop opts fs basePkg st' ms)"

definition collector0 :: "(string \<times> string) list \<Rightarrow> collector" where
  "collector0 names = \<lparr>buf = [], pkgFuncs = [], name = [], dirname = [], pkgNames = names, reads = []\<rparr>"

text \<open>The closing lines 245--249 after the loop. The function returns the buffer; the
  model returns the whole state, of which \<open>buf\<close> is that buffer.\<close>

definition finish :: "genOptsSt \<Rightarrow> filesys \<Rightarrow> collector \<Rightarrow> collector" where
  "finish opts fs st =
     (if length (pkgFuncs st) > 0
      then st\<lparr>buf := bufWriteDoc opts fs (bufWriteln FenceClose (buf st) [''```''])
                        partDocTplE (dirname st)\<rparr>
      else st)"

definition collectPgkFunc :: "genOptsSt \<Rightarrow> filesys \<Rightarrow> string list \<Rightarrow> string \<Rightarrow> error + collector" where
  "collectPgkFunc opts fs ms basePkg =
     (case collectLoop opts fs basePkg (collector0 []) ms of
        Inl e \<Rightarrow> Inl e
      | Inr st \<Rightarrow> Inr (finish opts fs st))"

subsection \<open>The write at the end of \<open>main\<close> (lines 156--160)\<close>

definition main_write :: "string \<Rightarrow> buffer \<Rightarrow> string" where
  "main_write tplBody b =
     (if length tplBody > 0
      then strings_Replace tplBody ''{{pgkFuncs}}'' (bufString b) 1
      else bufString b)"

section \<open>Terminal colour detection: \<open>envutil\<close>\<close>

text \<open>The process environment; \<open>os.Getenv\<close> yields the empty string for a variable that
  is not set.\<close>

type_synonym environ = "string \<rightharpoonup> string"

definition os_Getenv :: "environ \<Rightarrow> string \<Rightarrow> string" where
  "os_Getenv env key = (case env key of None \<Rightarrow> [] | Some v \<Rightarrow> v)"

definition specialColorTerms :: "string \<rightharpoonup> bool" where
  "specialColorTerms = map_of [(''alacritty'', True)]"

definition IsSupportTrueColor :: "environ \<Rightarrow> bool" where
  "IsSupportTrueColor env \<longleftrightarrow> strings_Contains (os_Getenv env ''COLORTERM'') ''truecolor''"

definition IsSupport256Color :: "environ \<Rightarrow> bool" where
  "IsSupport256Color env =
     (let supported = strings_Contains (os_Getenv env ''TERM'') ''256color''
      in if \<not> supported then IsSupportTrueColor env else supported)"

definition IsSupportColor :: "environ \<Rightarrow> bool" where
  "IsSupportColor env =
     (let envTerm = os_Getenv env ''TERM''
      in if strings_Contains envTerm ''xterm'' then True
         else if specialColorTerms envTerm \<noteq> None then True
         else if os_Getenv env ''ConEmuANSI'' = ''ON'' then True
         else if os_Getenv env ''ANSICON'' \<noteq> [] then True
         else IsSupport256Color env)"

section \<open>The time wrapper: \<open>timex\<close>\<close>

text \<open>Go's \<open>int\<close> and \<open>time.Duration\<close> are 64-bit and wrap around. The type \<open>time.Time\<close>
  and the functions of package \<open>time\<close> that the wrapper calls are parameters: \<open>'t\<close> is
  \<open>time.Time\<close>, \<open>'l\<close> is \<open>*time.Location\<close>.\<close>

type_synonym go_int = "64 word"

record ('t, 'l) time_pkg =
  time_Add :: "'t \<Rightarrow> go_int \<Rightarrow> 't"
  time_YMD :: "'t \<Rightarrow> go_int \<times> go_int \<times> go_int" \<comment> \<open>\<open>t.Date()\<close>\<close>
  time_Hour :: "'t \<Rightarrow> go_int"
  time_Location :: "'t \<Rightarrow> 'l"
  time_Date :: "go_int \<Rightarrow> go_int \<Rightarrow> go_int \<Rightarrow> go_int \<Rightarrow> go_int \<Rightarrow> go_int \<Rightarrow> go_int \<Rightarrow> 'l \<Rightarrow> 't"

definition OneMinSec :: go_int where "OneMinSec = 60"
definition OneHourSec :: go_int where "OneHourSec = 3600"
definition OneDaySec :: go_int where "OneDaySec = 86400"
definition time_Second :: go_int where "time_Second = 1000000000"
definition time_Nanosecond :: go_int where "time_Nanosecond = 1"

record 't TimeX =
  Time :: 't
  Layout :: string

text \<open>The methods have pointer receivers and return pointers to values they allocate.
  The store is the list of the allocated \<open>TimeX\<close> values, a pointer is an index into it,
  and an index outside the store stands for \<open>nil\<close>. \<open>DefaultLayout\<close> is a package
  variable.\<close>

record 't timex_state =
  heap :: "'t TimeX list"
  DefaultLayout :: string

definition deref :: "'t timex_state \<Rightarrow> nat \<Rightarrow> error + 't TimeX" where
  "deref st p = (if p < length (heap st) then Inr (heap st ! p) else Inl NilDeref)"

definition alloc :: "'t timex_state \<Rightarrow> 't TimeX \<Rightarrow> 't timex_state \<times> nat" where
  \<comment> \<open>\<open>&TimeX{...}\<close>\<close>
  "alloc st v = (st\<lparr>heap := heap st @ [v]\<rparr>, length (heap st))"

definition New :: "'t timex_state \<Rightarrow> 't \<Rightarrow> 't timex_state \<times> nat" where
  "New st t = alloc st \<lparr>Time = t, Layout = DefaultLayout st\<rparr>"

definition AddSeconds ::
  "('t, 'l) time_pkg \<Rightarrow> 't timex_state \<Rightarrow> nat \<Rightarrow> go_int \<Rightarrow> error + 't timex_state \<times> nat" where
  "AddSeconds lib st t seconds =
     (case deref st t of
        Inl e \<Rightarrow> Inl e
      | Inr tx \<Rightarrow>
          Inr (alloc st \<lparr>Time = time_Add lib (Time tx) (seconds * time_Second),
                         Layout = DefaultLayout st\<rparr>))"

definition Yesterday ::
  "('t, 'l) time_pkg \<Rightarrow> 't timex_state \<Rightarrow> nat \<Rightarrow> error + 't timex_state \<times> nat" where
  "Yesterday lib st t = AddSeconds lib st t (- OneDaySec)"

definition DayAgo ::
  "('t, 'l) time_pkg \<Rightarrow> 't timex_state \<Rightarrow> nat \<Rightarrow> go_int \<Rightarrow> error + 't timex_state \<times> nat" where
  "DayAgo lib st t day = AddSeconds lib st t (- day * OneDaySec)"

definition AddDay ::
  "('t, 'l) time_pkg \<Rightarrow> 't timex_state \<Rightarrow> nat \<Rightarrow> go_int \<Rightarrow> error + 't timex_state \<times> nat" where
  "AddDay lib st t day = AddSeconds lib st t (day * OneDaySec)"

definition Tomorrow ::
  "('t, 'l) time_pkg \<Rightarrow> 't timex_state \<Rightarrow> nat \<Rightarrow> error + 't timex_state \<times> nat" where
  "Tomorrow lib st t = AddSeconds lib st t OneDaySec"

definition DayAfter ::
  "('t, 'l) time_pkg \<Rightarrow> 't timex_state \<Rightarrow> nat \<Rightarrow> go_int \<Rightarrow> error + 't timex_state \<times> nat" where
  "DayAfter lib st t day = AddDay lib st t day"

definition AddHour ::
  "('t, 'l) time_pkg \<Rightarrow> 't timex_state \<Rightarrow> nat \<Rightarrow> go_int \<Rightarrow> error + 't timex_state \<times> nat" where
  "AddHour lib st t hours = AddSeconds lib st t (hours * OneHourSec)"

definition AddMinutes ::
  "('t, 'l) time_pkg \<Rightarrow> 't timex_state \<Rightarrow> nat \<Rightarrow> go_int \<Rightarrow> error + 't timex_state \<times> nat" where
  "AddMinutes lib st t minutes = AddSeconds lib st t (minutes * OneMinSec)"

definition HourStart ::
  "('t, 'l) time_pkg \<Rightarrow> 't timex_state \<Rightarrow> nat \<Rightarrow> error + 't timex_state \<times> nat" where
  "HourStart lib st t =
     (case deref st t of
        Inl e \<Rightarrow> Inl e
      | Inr tx \<Rightarrow>
          (case time_YMD lib (Time tx) of
             (y, m, d) \<Rightarrow>
               Inr (New st (time_Date lib y m d (time_Hour lib (Time tx)) 0 0 0
                              (time_Location lib (Time tx))))))"

definition HourEnd ::
  "('t, 'l) time_pkg \<Rightarrow> 't timex_state \<Rightarrow> nat \<Rightarrow> error + 't timex_state \<times> nat" where
  "HourEnd lib st t =
     (case deref st t of
        Inl e \<Rightarrow> Inl e
      | Inr tx \<Rightarrow>
          (case time_YMD lib (Time tx) of
             (y, m, d) \<Rightarrow>
               Inr (New st (time_Date lib y m d (time_Hour lib (Time tx)) 59 59
                              (time_Second - time_Nanosecond) (time_Location lib (Time tx))))))"

definition DayStart ::
  "('t, 'l) time_pkg \<Rightarrow> 't timex_state \<Rightarrow> nat \<Rightarrow> error + 't timex_state \<times> nat" where
  "DayStart lib st t =
     (case deref st t of
        Inl e \<Rightarrow> Inl e
      | Inr tx \<Rightarrow>
          (case time_YMD lib (Time tx) of
             (y, m, d) \<Rightarrow>
               Inr (New st (time_Date lib y m d 0 0 0 0 (time_Location lib (Time tx))))))"

definition DayEnd ::
  "('t, 'l) time_pkg \<Rightarrow> 't timex_state \<Rightarrow> nat \<Rightarrow> error + 't timex_state \<times> nat" where
  "DayEnd lib st t =
     (case deref st t of
        Inl e \<Rightarrow> Inl e
      | Inr tx \<Rightarrow>
          (case time_YMD lib (Time tx) of
             (y, m, d) \<Rightarrow>
               Inr (New st (time_Date lib y m d 23 59 59
                              (time_Second - time_Nanosecond) (time_Location lib (Time tx))))))"

definition ChangeHMS ::
  "('t, 'l) time_pkg \<Rightarrow> 't timex_state \<Rightarrow> nat \<Rightarrow> go_int \<Rightarrow> go_int \<Rightarrow> go_int \<Rightarrow>
   error + 't timex_state \<times> nat" where
  "ChangeHMS lib st t hour mn sec =
     (case deref st t of
        Inl e \<Rightarrow> Inl e
      | Inr tx \<Rightarrow>
          (case time_YMD lib (Time tx) of
             (y, m, d) \<Rightarrow>
               Inr (New st (time_Date lib y m d hour mn sec
                              (time_Second - time_Nanosecond) (time_Location lib (Time tx))))))"

section \<open>Notions used to state the properties\<close>

text \<open>The texts written to the buffer under a given label, in order.\<close>

definition written :: "mark \<Rightarrow> buffer \<Rightarrow> string list" where
  "written m b = map snd (filter (\<lambda>c. fst c = m) b)"

text \<open>The shape of a match of the collector's pattern, in words: the keyword \<open>func\<close> and
  a space, a name made of an uppercase letter and at least one more word character, an
  opening parenthesis, and a rest of the line that has a closing parenthesis.\<close>

definition exported_decl :: "string \<Rightarrow> bool" where
  "exported_decl m \<longleftrightarrow>
     (\<exists>u ws args tl.
        m = ''func '' @ u # ws @ ''('' @ args @ '')'' @ tl \<and>
        cmatch Upper u \<and> ws \<noteq> [] \<and> (\<forall>c\<in>set ws. cmatch WordCh c) \<and>
        CHR ''\<newline>'' \<notin> set args \<and> CHR ''\<newline>'' \<notin> set tl)"

text \<open>A declaration whose name starts with an uppercase letter, with no condition on the
  rest of the name: the keyword \<open>func\<close> and a space, an uppercase letter, any word
  characters, an opening parenthesis, and a rest of the line that has a closing
  parenthesis.\<close>

definition capital_decl :: "string \<Rightarrow> bool" where
  "capital_decl m \<longleftrightarrow>
     (\<exists>u ws args tl.
        m = ''func '' @ u # ws @ ''('' @ args @ '')'' @ tl \<and>
        cmatch Upper u \<and> (\<forall>c\<in>set ws. cmatch WordCh c) \<and>
        CHR ''\<newline>'' \<notin> set args \<and> CHR ''\<newline>'' \<notin> set tl)"

text \<open>The package key of a candidate path is its subdirectory: the part before the first
  slash.\<close>

definition pkgKey :: "string \<Rightarrow> string" where
  "pkgKey filename = takeWhile (\<lambda>c. c \<noteq> CHR ''/'') filename"

text \<open>The filtering rules of the spec: a path is processed unless its subdirectory is
  hidden or it ends in the test suffix or in the platform suffix.\<close>

definition processed :: "string \<Rightarrow> bool" where
  "processed filename \<longleftrightarrow>
     \<not> strings_HasSuffix filename ''_test.go'' \<and>
     \<not> strings_HasSuffix filename ''_windows.go'' \<and>
     pkgKey filename \<notin> set hidden"

text \<open>Section boundaries as the spec words them: a key opens a section when it differs
  from the key before it, or is the first.\<close>

fun changedKeys :: "string option \<Rightarrow> string list \<Rightarrow> string list" where
  "changedKeys prev [] = []"
| "changedKeys prev (k # ks) =
     (if prev = Some k then changedKeys prev ks else k # changedKeys (Some k) ks)"

text \<open>Section boundaries by first occurrence: a key opens a section when it has not
  occurred before.\<close>

fun newKeys :: "string list \<Rightarrow> string list \<Rightarrow> string list" where
  "newKeys seen [] = []"
| "newKeys seen (k # ks) =
     (if k \<in> set seen then newKeys seen ks else k # newKeys (k # seen) ks)"

text \<open>The heading line of the section of a package directory.\<close>

definition headingLine :: "string \<Rightarrow> string" where
  "headingLine dir = ''\<newline>### '' @ strutil_UpperFirst (displayName dir) @ ''\<newline>''"

text \<open>The path of the fragment file for a naming template, a package name and a language
  suffix, the suffix of the configured language, and that neither the configured
  language's nor the default language's fragment file exists.\<close>

definition fragmentPath :: "genOptsSt \<Rightarrow> string \<Rightarrow> string \<Rightarrow> string \<Rightarrow> string" where
  "fragmentPath opts tpl pkgName lng = tplDir opts @ ''/'' @ fmt_Sprintf tpl [pkgName, lng]"

definition langSuffix :: "genOptsSt \<Rightarrow> string" where
  "langSuffix opts = (if lang opts \<noteq> ''en'' then ''.'' @ lang opts else [])"

definition no_fragment :: "genOptsSt \<Rightarrow> filesys \<Rightarrow> string \<Rightarrow> string \<Rightarrow> bool" where
  "no_fragment opts fs tpl pkgName \<longleftrightarrow>
     fs (fragmentPath opts tpl pkgName (langSuffix opts)) = None \<and>
     fs (fragmentPath opts tpl pkgName []) = None"

text \<open>What the first file of a package writes before its own lines (the \<open>else\<close> branch of
  lines 204--231), and nothing for a file of a package that has its section.\<close>

definition sectionStart :: "genOptsSt \<Rightarrow> filesys \<Rightarrow> string \<Rightarrow> collector \<Rightarrow> string \<Rightarrow> buffer" where
  "sectionStart opts fs basePkg st dir =
     (if map_of (pkgFuncs st) (basePkg @ ''/'' @ dir) \<noteq> None then []
      else (if pkgFuncs st \<noteq> []
            then (FenceClose, ''```\<newline>'') # bufWriteDoc opts fs [] partDocTplE (dirname st)
            else []) @
           [(Heading, headingLine dir),
            (PkgLine, ''\<newline>> Package `'' @ basePkg @ ''/'' @ dir @ ''`\<newline>\<newline>'')] @
           bufWriteDoc opts fs [] partDocTplS (displayName dir) @
           [(FenceOpen, ''```go\<newline>'')])"

text \<open>The fragment of a naming template and a name, as the spec describes its loading: the
  text of the configured language's file, or else of the default file, or nothing; a
  file with no content counts as absent. A fragment is written with a newline after it.\<close>

definition fragment :: "genOptsSt \<Rightarrow> filesys \<Rightarrow> string \<Rightarrow> string \<Rightarrow> buffer" where
  "fragment opts fs tpl pkgName =
     (let preferred = (case fs (fragmentPath opts tpl pkgName (langSuffix opts)) of
                         None \<Rightarrow> [] | Some t \<Rightarrow> t);
          fallback = (case fs (fragmentPath opts tpl pkgName []) of None \<Rightarrow> [] | Some t \<Rightarrow> t);
          body = (if preferred \<noteq> [] then preferred else fallback)
      in if body = [] then [] else [(Doc, body @ ''\<newline>'')])"

text \<open>The text of one section of the output, for a package directory and the files whose
  lines it holds: the heading, the package line, the start fragment (named by the display
  name) and the opening fence; the lines of the files; the closing fence and the end
  fragment (named by the directory).\<close>

definition sectionHead :: "genOptsSt \<Rightarrow> filesys \<Rightarrow> string \<Rightarrow> string \<Rightarrow> buffer" where
  "sectionHead opts fs basePkg dir =
     [(Heading, headingLine dir),
      (PkgLine, ''\<newline>> Package `'' @ basePkg @ ''/'' @ dir @ ''`\<newline>\<newline>'')] @
     fragment opts fs partDocTplS (displayName dir) @
     [(FenceOpen, ''```go\<newline>'')]"

definition sectionFoot :: "genOptsSt \<Rightarrow> filesys \<Rightarrow> string \<Rightarrow> buffer" where
  "sectionFoot opts fs dir = (FenceClose, ''```\<newline>'') # fragment opts fs partDocTplE dir"

definition fileLines :: "filesys \<Rightarrow> string list \<Rightarrow> buffer" where
  "fileLines fs files = concat (map (\<lambda>g. writeFuncs g (the (fs g)) []) files)"

definition sectionText :: "genOptsSt \<Rightarrow> filesys \<Rightarrow> string \<Rightarrow> string \<times> string list \<Rightarrow> buffer" where
  "sectionText opts fs basePkg sec =
     sectionHead opts fs basePkg (fst sec) @ fileLines fs (snd sec) @ sectionFoot opts fs (fst sec)"

text \<open>The sections of a run, each a package directory with its files: a processed file
  whose key has a section joins the last section, any other opens a new last section.\<close>

definition addFile :: "(string \<times> string list) list \<Rightarrow> string \<Rightarrow> (string \<times> string list) list" where
  "addFile secs f =
     (if pkgKey f \<in> fst ` set secs
      then butlast secs @ [(fst (last secs), snd (last secs) @ [f])]
      else secs @ [(pkgKey f, [f])])"

definition sectionsOf :: "string list \<Rightarrow> (string \<times> string list) list" where
  "sectionsOf ms = foldl addFile [] (filter processed ms)"

text \<open>The order of the writes of a well-formed output, as an automaton over the labels:
  every section is a heading, the package line, at most one fragment, the opening
  fence, source and signature lines, the closing fence, and at most one fragment.\<close>

datatype phase = Idle | Headed | Annotated | Introduced | Fenced | Closed | Ended

fun phase_step :: "phase \<Rightarrow> mark \<Rightarrow> phase option" where
  "phase_step Idle Heading = Some Headed"
| "phase_step Closed Heading = Some Headed"
| "phase_step Ended Heading = Some Headed"
| "phase_step Headed PkgLine = Some Annotated"
| "phase_step Annotated Doc = Some Introduced"
| "phase_step Annotated FenceOpen = Some Fenced"
| "phase_step Introduced FenceOpen = Some Fenced"
| "phase_step Fenced SourceAt = Some Fenced"
| "phase_step Fenced Sig = Some Fenced"
| "phase_step Fenced FenceClose = Some Closed"
| "phase_step Closed Doc = Some Ended"
| "phase_step _ _ = None"

fun phase_run :: "phase \<Rightarrow> mark list \<Rightarrow> phase option" where
  "phase_run p [] = Some p"
| "phase_run p (m # ms) = (case phase_step p m of None \<Rightarrow> None | Some q \<Rightarrow> phase_run q ms)"

definition well_fenced :: "buffer \<Rightarrow> bool" where
  "well_fenced b \<longleftrightarrow> phase_run Idle (map fst b) \<in> {Some Idle, Some Closed, Some Ended}"

text \<open>Invariants of the loop of \<open>collectPgkFunc\<close>: a fence is open exactly when
  \<open>pkgFuncs\<close> has an entry; the keys of \<open>pkgFuncs\<close> are the package paths of the
  directories seen, and the opening fences are one more than the closing ones while a
  section is open.\<close>

definition phase_inv :: "collector \<Rightarrow> bool" where
  "phase_inv st \<longleftrightarrow>
     phase_run Idle (map fst (buf st)) = Some (if pkgFuncs st = [] then Idle else Fenced)"

definition keys_inv :: "string \<Rightarrow> string list \<Rightarrow> collector \<Rightarrow> bool" where
  "keys_inv basePkg seen st \<longleftrightarrow>
     fst ` set (pkgFuncs st) = (\<lambda>d. basePkg @ ''/'' @ d) ` set seen \<and>
     length (written FenceOpen (buf st)) =
       length (written FenceClose (buf st)) + (if pkgFuncs st = [] then 0 else 1)"

text \<open>The state of the loop after the files of the sections \<open>secs\<close>: every section but
  the last is complete in the buffer, the last one is open.\<close>

definition sections_inv ::
  "genOptsSt \<Rightarrow> filesys \<Rightarrow> string \<Rightarrow> (string \<times> string list) list \<Rightarrow> collector \<Rightarrow> bool" where
  "sections_inv opts fs basePkg secs st \<longleftrightarrow>
     fst ` set (pkgFuncs st) = (\<lambda>d. basePkg @ ''/'' @ d) ` fst ` set secs \<and>
     (secs = [] \<longrightarrow> buf st = []) \<and>
     (secs \<noteq> [] \<longrightarrow>
        dirname st = fst (last secs) \<and>
        buf st = concat (map (sectionText opts fs basePkg) (butlast secs)) @
                 sectionHead opts fs basePkg (fst (last secs)) @ fileLines fs (snd (last secs)))"

text \<open>The number of positions of \<open>s\<close> at which \<open>tok\<close> occurs.\<close>

fun occurrences :: "string \<Rightarrow> string \<Rightarrow> nat" where
  "occurrences tok [] = (if tok = [] then 1 else 0)"
| "occurrences tok (x # xs) =
     (if strings_HasPrefix (x # xs) tok then 1 else 0) + occurrences tok xs"

text \<open>That a helper of the time wrapper, called on the pointer \<open>p\<close> in the state \<open>st\<close>,
  returned a pointer to a value that was not there before and changed nothing that
  was.\<close>

definition returns_new :: "'t timex_state \<Rightarrow> nat \<Rightarrow> error + 't timex_state \<times> nat \<Rightarrow> bool" where
  "returns_new st p res \<longleftrightarrow>
     (\<exists>st' q. res = Inr (st', q) \<and>
        length (heap st) \<le> q \<and> q < length (heap st') \<and>
        take (length (heap st)) (heap st') = heap st \<and>
        Time (heap st' ! p) = Time (heap st ! p) \<and>
        Layout (heap st' ! p) = Layout (heap st ! p) \<and>
        DefaultLayout st' = DefaultLayout st)"

subsection \<open>Sample inputs\<close>

definition sample_opts :: genOptsSt where
  "sample_opts = \<lparr>lang = ''zh-CN'', output_opt = ''stdout'', template = [], tplDir = ''tpl''\<rparr>"

definition sample_fs :: filesys where
  "sample_fs = map_of
     [(''a/f1.go'', ''package a\<newline>\<newline>func Foo(a int) string {\<newline>func bar(a int) {\<newline>''),
      (''a/f2.go'', ''package a\<newline>''),
      (''b/f1.go'', ''func Bee(x int) {\<newline>''),
      (''b/f2.go'', ''func F(a int) {\<newline>''),
      (''a/f3.go'', ''func Zed() error {\<newline>''),
      (''tpl/part-b.md'', ''notes on b'')]"

definition sample_ms :: "string list" where
  "sample_ms = [''a/f1.go'', ''a/f2.go'', ''b/f1.go'', ''b/f2.go'', ''a/f3.go'']"

definition sample_fs_zh :: filesys where
  "sample_fs_zh = sample_fs(''tpl/part-b.zh-CN.md'' \<mapsto> ''zh notes on b'')"

definition sample_mixed :: "string list" where
  "sample_mixed = [''a/f1.go'', ''a/f1_test.go'', ''internal/gen.go'', ''b/f1_windows.go'', ''b/f1.go'']"

definition sample_fs_end :: filesys where
  "sample_fs_end = map_of
     [(''fsutil/find.go'', ''func FindFile(dir string) string {\<newline>''),
      (''strutil/x.go'', ''func Upper(s string) string {\<newline>''),
      (''tpl/part-fileSystem.md'', ''END NOTES''),
      (''tpl/part-fileSystem-s.md'', ''START NOTES''),
      (''tpl/part-strutil.md'', ''END OF STR'')]"

definition sample_env :: environ where
  "sample_env = map_of [(''TERM'', ''screen''), (''COLORTERM'', ''truecolor'')]"

text \<open>A stand-in for package \<open>time\<close>: a time is a number of seconds, in a single
  location.\<close>

definition sample_time :: "(int, unit) time_pkg" where
  "sample_time =
     \<lparr>time_Add = (\<lambda>t d. t + sint d div 1000000000),
      time_YMD = (\<lambda>t. (1970, 1, word_of_int (t div 86400) + 1)),
      time_Hour = (\<lambda>t. word_of_int (t mod 86400 div 3600)),
      time_Location = (\<lambda>t. ()),
      time_Date = (\<lambda>y m d h mi s ns l. (sint d - 1) * 86400 + sint h * 3600 + sint mi * 60 + sint s)\<rparr>"

definition sample_state :: "int timex_state" where
  "sample_state = \<lparr>heap = [\<lparr>Time = 90000, Layout = ''2006-01-02''\<rparr>],
                    DefaultLayout = ''2006-01-02 15:04:05''\<rparr>"

section \<open>The collector's pattern\<close>

lemma word_not_paren: "cmatch WordCh x \<Longrightarrow> x \<noteq> CHR ''(''"
  by auto

lemma re_match_any_star: "re_match [Star AnyNoNL] s = Some (dropWhile (\<lambda>c. c \<noteq> CHR ''\<newline>'') s)"
  by (induction s) auto

lemma re_match_args:
  "re_match [Star AnyNoNL, One (Lit CHR '')''), Star AnyNoNL] s =
     (if CHR '')'' \<in> set (takeWhile (\<lambda>c. c \<noteq> CHR ''\<newline>'') s)
      then Some (dropWhile (\<lambda>c. c \<noteq> CHR ''\<newline>'') s) else None)"
proof (induction s)
  case Nil
  then show ?case by simp
next
  case (Cons x xs)
  show ?case
  proof (cases "x = CHR ''\<newline>''")
    case True
    then show ?thesis by simp
  next
    case False
    then show ?thesis using Cons by (auto simp: re_match_any_star)
  qed
qed

lemma re_match_name:
  "re_match (Star WordCh # One (Lit CHR ''('') # r) s =
     (case dropWhile (cmatch WordCh) s of
        [] \<Rightarrow> None
      | c # t \<Rightarrow> if c = CHR ''('' then re_match r t else None)"
proof (induction s)
  case Nil
  then show ?case by simp
next
  case (Cons x xs)
  show ?case
  proof (cases "cmatch WordCh x")
    case True
    then have "x \<noteq> CHR ''(''" by (rule word_not_paren)
    with True Cons show ?thesis 
      by (simp del: cmatch.simps add: cmatch.simps(1) split: list.splits option.splits)
  next
    case False
    then show ?thesis by (simp del: cmatch.simps add: cmatch.simps(1))
  qed
qed

lemma re_match_reg:
  "re_match reg s =
     (case s of
        a # b # c # d # e # u # w # t \<Rightarrow>
          if [a, b, c, d, e] = ''func '' \<and> cmatch Upper u \<and> cmatch WordCh w
          then (case dropWhile (cmatch WordCh) t of
                  [] \<Rightarrow> None
                | p # t' \<Rightarrow>
                    if p = CHR ''('' \<and> CHR '')'' \<in> set (takeWhile (\<lambda>c. c \<noteq> CHR ''\<newline>'') t')
                    then Some (dropWhile (\<lambda>c. c \<noteq> CHR ''\<newline>'') t') else None)
          else None
      | _ \<Rightarrow> None)"
  unfolding reg_def
  apply (auto simp del: cmatch.simps simp add: cmatch.simps(1) re_match_name re_match_args split: list.splits)
  by (metis dropWhile_eq_Nil_conv list.discI)

lemma re_match_reg_iff:
  "re_match reg s = Some r \<longleftrightarrow>
     (\<exists>u w t t'. s = ''func '' @ u # w # t \<and> cmatch Upper u \<and> cmatch WordCh w \<and>
        dropWhile (cmatch WordCh) t = CHR ''('' # t' \<and>
        CHR '')'' \<in> set (takeWhile (\<lambda>c. c \<noteq> CHR ''\<newline>'') t') \<and>
        r = dropWhile (\<lambda>c. c \<noteq> CHR ''\<newline>'') t')"
  unfolding re_match_reg
  apply (auto simp del: cmatch.simps split: list.splits if_splits)
  by (metis dropWhile_eq_Nil_conv list.discI)



lemma upper_not_nl: "cmatch Upper x \<Longrightarrow> x \<noteq> CHR ''\<newline>''"
  by auto

lemma word_not_nl: "cmatch WordCh x \<Longrightarrow> x \<noteq> CHR ''\<newline>''"
  by auto

lemma exported_decl_no_nl:
  assumes "exported_decl m"
  shows "CHR ''\<newline>'' \<notin> set m"
proof -
  from assms obtain u ws args tl where
    m: "m = ''func '' @ u # ws @ ''('' @ args @ '')'' @ tl" and u: "cmatch Upper u" and
    ws: "\<forall>c\<in>set ws. cmatch WordCh c" and
    nl: "CHR ''\<newline>'' \<notin> set args" "CHR ''\<newline>'' \<notin> set tl"
    unfolding exported_decl_def by blast
  have "u \<noteq> CHR ''\<newline>''"
    using u by (rule upper_not_nl)
  moreover have "CHR ''\<newline>'' \<notin> set ws"
    using ws word_not_nl by blast
  ultimately show ?thesis
    using nl unfolding m by simp
qed

lemma exported_decl_not_Nil: "exported_decl m \<Longrightarrow> m \<noteq> []"
  unfolding exported_decl_def by auto

lemma re_match_reg_sound:
  assumes "re_match reg s = Some r"
  shows "\<exists>m. s = m @ r \<and> exported_decl m \<and> (r = [] \<or> hd r = CHR ''\<newline>'')"
proof -
  from assms obtain u w t t' where
    s: "s = ''func '' @ u # w # t" and u: "cmatch Upper u" and w: "cmatch WordCh w" and
    dw: "dropWhile (cmatch WordCh) t = CHR ''('' # t'" and
    cl: "CHR '')'' \<in> set (takeWhile (\<lambda>c. c \<noteq> CHR ''\<newline>'') t')" and
    r: "r = dropWhile (\<lambda>c. c \<noteq> CHR ''\<newline>'') t'"
    unfolding re_match_reg_iff by blast
  define ws where "ws = takeWhile (cmatch WordCh) t"
  define ln where "ln = takeWhile (\<lambda>c. c \<noteq> CHR ''\<newline>'') t'"
  from cl obtain args tl where ln: "ln = args @ CHR '')'' # tl"
    unfolding ln_def by (auto simp: in_set_conv_decomp)
  have nl: "CHR ''\<newline>'' \<notin> set ln"
    unfolding ln_def by (auto dest: set_takeWhileD)
  have wsw: "\<forall>c\<in>set ws. cmatch WordCh c"
    unfolding ws_def by (auto simp del: cmatch.simps dest: set_takeWhileD)
  have t: "t = ws @ CHR ''('' # t'"
    unfolding ws_def using dw takeWhile_dropWhile_id [of "cmatch WordCh" t] by simp
  have t': "t' = ln @ r"
    unfolding ln_def r by simp
  let ?m = "''func '' @ u # (w # ws) @ ''('' @ args @ '')'' @ tl"
  have "s = ?m @ r"
    by (simp add: s t t' ln)
  moreover have "exported_decl ?m"
    unfolding exported_decl_def
    using u w nl wsw ln
    by (intro exI [of _ u] exI [of _ "w # ws"] exI [of _ args] exI [of _ tl])
       (simp del: cmatch.simps)
  moreover have "r = [] \<or> hd r = CHR ''\<newline>''"
    unfolding r using hd_dropWhile [of "\<lambda>c. c \<noteq> CHR ''\<newline>''" t'] by auto
  ultimately show ?thesis by blast
qed

lemma paren_not_word: "\<not> cmatch WordCh CHR ''(''"
  by simp

lemma takeWhile_absent:
  "c \<notin> set xs \<Longrightarrow> takeWhile (\<lambda>x. x \<noteq> c) (xs @ ys) = xs @ takeWhile (\<lambda>x. x \<noteq> c) ys"
  by (induction xs) auto

lemma dropWhile_absent:
  "c \<notin> set xs \<Longrightarrow> dropWhile (\<lambda>x. x \<noteq> c) (xs @ ys) = dropWhile (\<lambda>x. x \<noteq> c) ys"
  by (induction xs) auto

lemma re_match_reg_complete:
  assumes "exported_decl m"
  shows "re_match reg (m @ post) = Some (dropWhile (\<lambda>c. c \<noteq> CHR ''\<newline>'') post)"
proof -
  from assms obtain u ws args tl where
    m: "m = ''func '' @ u # ws @ ''('' @ args @ '')'' @ tl" and u: "cmatch Upper u" and
    ws: "ws \<noteq> []" "\<forall>c\<in>set ws. cmatch WordCh c" and
    nl: "CHR ''\<newline>'' \<notin> set args" "CHR ''\<newline>'' \<notin> set tl"
    unfolding exported_decl_def by blast
  from ws obtain w ws' where wsc: "ws = w # ws'" by (cases ws) auto
  let ?t' = "args @ '')'' @ tl @ post"
  let ?t = "ws' @ CHR ''('' # ?t'"
  have dw: "dropWhile (cmatch WordCh) ?t = CHR ''('' # ?t'"
    using ws wsc paren_not_word by (simp del: cmatch.simps add: dropWhile_append3)
  have tk: "takeWhile (\<lambda>c. c \<noteq> CHR ''\<newline>'') ?t' = args @ '')'' @ tl @ takeWhile (\<lambda>c. c \<noteq> CHR ''\<newline>'') post"
    using nl by (simp add: takeWhile_absent)
  have dr: "dropWhile (\<lambda>c. c \<noteq> CHR ''\<newline>'') ?t' = dropWhile (\<lambda>c. c \<noteq> CHR ''\<newline>'') post"
    using nl by (simp add: dropWhile_absent)
  have "m @ post = ''func '' @ u # w # ?t"
    using m wsc by simp
  then show ?thesis
    unfolding re_match_reg_iff
    using u ws wsc dw tk dr
    by (intro exI [of _ u] exI [of _ w] exI [of _ ?t] exI [of _ ?t'])
       (simp del: cmatch.simps)
qed

lemma re_match_reg_shorter: "re_match reg s = Some r \<Longrightarrow> length r < length s"
  by (drule re_match_reg_sound) (auto dest: exported_decl_not_Nil)


lemma FindAll_reg_Nil: "FindAll reg adj [] = []"
  by (subst FindAll.simps) (simp add: re_match_reg)

lemma FindAll_reg_None:
  "re_match reg (x # xs) = None \<Longrightarrow> FindAll reg adj (x # xs) = FindAll reg False xs"
  by (subst FindAll.simps) simp

lemma FindAll_reg_Some:
  "re_match reg s = Some r \<Longrightarrow>
   FindAll reg adj s = take (length s - length r) s # FindAll reg True r"
  by (subst FindAll.simps) (simp add: re_match_reg_shorter)

lemma FindAll_reg_sound:
  "m \<in> set (FindAll reg adj s) \<Longrightarrow> exported_decl m \<and> (\<exists>pre post. s = pre @ m @ post)"
proof (induction "length s" arbitrary: s adj rule: less_induct)
  case less
  show ?case
  proof (cases "re_match reg s")
    case None
    with less.prems obtain x xs where s: "s = x # xs" and m: "m \<in> set (FindAll reg False xs)"
      by (cases s) (auto simp: FindAll_reg_Nil FindAll_reg_None)
    from less.hyps [of xs False] s m obtain pre post where
      "exported_decl m" "xs = pre @ m @ post" by auto
    then have "exported_decl m" "s = (x # pre) @ m @ post" using s by auto
    then show ?thesis by blast
  next
    case (Some r)
    from re_match_reg_sound [OF Some] obtain m0 where
      m0: "s = m0 @ r" "exported_decl m0" by blast
    then have tk: "take (length s - length r) s = m0" by simp
    from less.prems tk have "m = m0 \<or> m \<in> set (FindAll reg True r)"
      by (auto simp: FindAll_reg_Some [OF Some])
    then show ?thesis
    proof
      assume "m = m0"
      then have "exported_decl m" "s = [] @ m @ r" using m0 by auto
      then show ?thesis by blast
    next
      assume m: "m \<in> set (FindAll reg True r)"
      have "length r < length s" using Some by (rule re_match_reg_shorter)
      from less.hyps [OF this m] obtain pre post where
        "exported_decl m" "r = pre @ m @ post" by auto
      then have "exported_decl m" "s = (m0 @ pre) @ m @ post" using m0 by auto
      then show ?thesis by blast
    qed
  qed
qed

lemma FindAll_reg_covers:
  "s = pre @ m @ post \<Longrightarrow> exported_decl m \<Longrightarrow>
   \<exists>m'\<in>set (FindAll reg adj s). \<exists>p q. m' = p @ m @ q"
proof (induction "length s" arbitrary: s adj pre rule: less_induct)
  case less
  note decl = \<open>exported_decl m\<close>
  show ?case
  proof (cases "re_match reg s")
    case None
    have "pre \<noteq> []"
    proof
      assume "pre = []"
      then have "re_match reg s \<noteq> None"
        using less.prems re_match_reg_complete [OF decl, of post] by simp
      with None show False by simp
    qed
    then obtain x pre' where pre: "pre = x # pre'" by (cases pre) auto
    then have s: "s = x # (pre' @ m @ post)" using less.prems by simp
    then have "length (pre' @ m @ post) < length s" by simp
    from less.hyps [OF this refl decl, of False]
    obtain m' where "m' \<in> set (FindAll reg False (pre' @ m @ post))" "\<exists>p q. m' = p @ m @ q"
      by blast
    moreover have "FindAll reg adj s = FindAll reg False (pre' @ m @ post)"
      using None unfolding s by (rule FindAll_reg_None)
    ultimately show ?thesis by auto
  next
    case (Some r)
    from re_match_reg_sound [OF Some] obtain m0 where
      m0: "s = m0 @ r" "exported_decl m0" and r: "r = [] \<or> hd r = CHR ''\<newline>''" by blast
    then have tk: "take (length s - length r) s = m0" by simp
    have fa: "FindAll reg adj s = m0 # FindAll reg True r"
      using tk by (simp add: FindAll_reg_Some [OF Some])
    have lt: "length r < length s" using Some by (rule re_match_reg_shorter)
    have nl: "CHR ''\<newline>'' \<notin> set m" using decl by (rule exported_decl_no_nl)
    have mne: "m \<noteq> []" using decl by (rule exported_decl_not_Nil)
    from less.prems(1) m0(1) have "pre @ (m @ post) = m0 @ r" by simp
    then consider
      (later) us where "pre = m0 @ us" "us @ m @ post = r"
    | (inside) us where "pre @ us = m0" "m @ post = us @ r"
      unfolding append_eq_append_conv2 [of pre "m @ post" m0 r] by auto
    then show ?thesis
    proof cases
      case later
      from less.hyps [OF lt later(2) [symmetric] decl, of True]
      show ?thesis using fa by auto
    next
      case inside
      from inside(2) consider
        (split) vs where "m = us @ vs" "vs @ post = r"
      | (whole) vs where "m @ vs = us" "post = vs @ r"
        unfolding append_eq_append_conv2 [of m post us r] by auto
      then show ?thesis
      proof cases
        case whole
        then have "m0 = pre @ m @ vs" using inside(1) by simp
        then have "\<exists>p q. m0 = p @ m @ q" by blast
        then show ?thesis using fa by simp
      next
        case split
        show ?thesis
        proof (cases vs)
          case Nil
          then have "m0 = pre @ m @ []" using split inside(1) by simp
          then have "\<exists>p q. m0 = p @ m @ q" by blast
          then show ?thesis using fa by simp
        next
          case (Cons v vs')
          then have "hd r = v" "r \<noteq> []" using split(2) by auto
          with r have "v = CHR ''\<newline>''" by simp
          then have "CHR ''\<newline>'' \<in> set m" using split(1) Cons by simp
          with nl show ?thesis by simp
        qed
      qed
    qed
  qed
qed

lemma foldl_snoc: "foldl (\<lambda>b' x. b' @ [f x]) b ls = b @ map f ls"
  by (induction ls arbitrary: b) simp_all

lemma writeFuncs_eq:
  "writeFuncs filename text b =
     b @ (if FindAllString reg text = [] then []
          else (SourceAt, ''// source at '' @ filename @ ''\<newline>'') #
               map (\<lambda>m. (Sig, strings_TrimRight m ''{ '' @ ''\<newline>'')) (FindAllString reg text))"
  by (simp add: writeFuncs_def Let_def foldl_snoc bufWriteln_def fmt_Sprintln_def)

lemma sample_text_matches:
  "FindAllString reg ''func Foo(a int) string {\<newline>func bar(a int) {\<newline>'' = [''func Foo(a int) string {'']"
  by code_simp

lemma single_letter_no_match: "re_match reg (''func '' @ u # ''('' @ rest) = None"
  using paren_not_word by (simp add: re_match_reg del: cmatch.simps)

section \<open>Signature extraction\<close>

text \<open>
  Claim C10. The name in the pattern is an uppercase letter followed by at least one
  word character. So the pattern does not match at a declaration whose name is a single
  letter, every match has a name of two characters or more and none is the declaration
  of a single-letter name, and the file \<open>func F(a int) {\<close> adds nothing to the buffer.
\<close>

theorem single_letter_name_not_extracted:
  "re_match reg (''func '' @ u # ''('' @ rest) = None \<and>
   (\<forall>m\<in>set (FindAllString reg text).
      (\<exists>u w r. m = ''func '' @ u # w # r \<and> cmatch Upper u \<and> cmatch WordCh w) \<and>
      \<not> (\<exists>u r. m = ''func '' @ u # ''('' @ r)) \<and>
   writeFuncs filename ''func F(a int) {\<newline>'' b = b"
proof (intro conjI ballI)
  show "re_match reg (''func '' @ u # ''('' @ rest) = None"
    by (rule single_letter_no_match)
next
  fix m
  assume "m \<in> set (FindAllString reg text)"
  then have "exported_decl m"
    unfolding FindAllString_def by (auto dest: FindAll_reg_sound)
  then obtain u ws args tl where
    m: "m = ''func '' @ u # ws @ ''('' @ args @ '')'' @ tl" and u: "cmatch Upper u" and
    ws: "ws \<noteq> []" "\<forall>c\<in>set ws. cmatch WordCh c"
    unfolding exported_decl_def by blast
  from ws obtain w ws' where wsc: "ws = w # ws'" by (cases ws) auto
  with ws have w: "cmatch WordCh w" by simp
  with m u wsc show "\<exists>u w r. m = ''func '' @ u # w # r \<and> cmatch Upper u \<and> cmatch WordCh w"
    by (intro exI [of _ u] exI [of _ w] exI [of _ "ws' @ ''('' @ args @ '')'' @ tl"]) simp
  from w have "w \<noteq> CHR ''(''" by (rule word_not_paren)
  with m wsc show "\<not> (\<exists>u r. m = ''func '' @ u # ''('' @ r)"
    by simp
next
  have "FindAllString reg ''func F(a int) {\<newline>'' = []"
    by code_simp
  then show "writeFuncs filename ''func F(a int) {\<newline>'' b = b"
    by (simp add: writeFuncs_eq)
qed

theorem single_letter_name_not_extracted_witness:
  "''func Foo(a int) string {'' \<in> set (FindAllString reg ''func Foo(a int) string {\<newline>func bar(a int) {\<newline>'') \<and>
   (\<exists>u w r. ''func Foo(a int) string {'' = ''func '' @ u # w # r \<and> cmatch Upper u \<and> cmatch WordCh w) \<and>
   \<not> (\<exists>u r. ''func Foo(a int) string {'' = ''func '' @ u # ''('' @ r)"
proof -
  have mem: "''func Foo(a int) string {'' \<in> set (FindAllString reg ''func Foo(a int) string {\<newline>func bar(a int) {\<newline>'')"
    by (simp add: sample_text_matches)
  with single_letter_name_not_extracted
    [of "CHR ''F''" "[]" "''func Foo(a int) string {\<newline>func bar(a int) {\<newline>''" "[]" "[]"]
  show ?thesis by blast
qed

section \<open>Colour tiers\<close>

text \<open>
  Claim C8. In every environment, true-colour support implies 256-colour support, and
  256-colour support implies colour support.
\<close>

theorem color_tiers:
  "(IsSupportTrueColor env \<longrightarrow> IsSupport256Color env) \<and>
   (IsSupport256Color env \<longrightarrow> IsSupportColor env)"
  by (simp add: IsSupport256Color_def IsSupportColor_def Let_def)

theorem color_tiers_witness:
  "IsSupportTrueColor sample_env \<and> IsSupport256Color sample_env \<and> IsSupportColor sample_env"
proof -
  have "IsSupportTrueColor sample_env"
    by code_simp
  with color_tiers [of sample_env] show ?thesis
    by blast
qed

section \<open>The time wrapper returns new values\<close>

lemma returns_new_alloc:
  "p < length (heap st) \<Longrightarrow> returns_new st p (Inr (alloc st v))"
  by (simp add: returns_new_def alloc_def nth_append)

lemma returns_new_New:
  "p < length (heap st) \<Longrightarrow> returns_new st p (Inr (New st t))"
  unfolding New_def by (rule returns_new_alloc)

lemma returns_new_AddSeconds:
  "p < length (heap st) \<Longrightarrow> returns_new st p (AddSeconds lib st p n)"
  by (simp add: AddSeconds_def deref_def returns_new_alloc)

lemma returns_new_boundary:
  "p < length (heap st) \<Longrightarrow>
   returns_new st p (HourStart lib st p) \<and> returns_new st p (HourEnd lib st p) \<and>
   returns_new st p (DayStart lib st p) \<and> returns_new st p (DayEnd lib st p) \<and>
   returns_new st p (ChangeHMS lib st p h mi s)"
  by (simp add: HourStart_def HourEnd_def DayStart_def DayEnd_def ChangeHMS_def deref_def
      returns_new_New split: prod.splits)

text \<open>
  Claim C9. Called on a pointer to a \<open>TimeX\<close> value, each offsetting and boundary helper
  returns a pointer to a newly allocated value and leaves every value that existed,
  the receiver's \<open>Time\<close> and \<open>Layout\<close> among them, as it was.
\<close>

theorem helpers_do_not_mutate:
  assumes "p < length (heap st)"
  shows "returns_new st p (AddSeconds lib st p n) \<and>
         returns_new st p (AddMinutes lib st p n) \<and>
         returns_new st p (AddHour lib st p n) \<and>
         returns_new st p (AddDay lib st p n) \<and>
         returns_new st p (DayAgo lib st p n) \<and>
         returns_new st p (Yesterday lib st p) \<and>
         returns_new st p (Tomorrow lib st p) \<and>
         returns_new st p (DayAfter lib st p n) \<and>
         returns_new st p (HourStart lib st p) \<and>
         returns_new st p (HourEnd lib st p) \<and>
         returns_new st p (DayStart lib st p) \<and>
         returns_new st p (DayEnd lib st p) \<and>
         returns_new st p (ChangeHMS lib st p h mi s)"
  using assms returns_new_boundary [OF assms, of lib h mi s]
  by (simp add: AddMinutes_def AddHour_def AddDay_def DayAgo_def Yesterday_def Tomorrow_def
      DayAfter_def returns_new_AddSeconds)

theorem helpers_do_not_mutate_witness:
  "0 < length (heap sample_state) \<and>
   returns_new sample_state 0 (AddSeconds sample_time sample_state 0 60) \<and>
   returns_new sample_state 0 (DayStart sample_time sample_state 0) \<and>
   returns_new sample_state 0 (HourStart sample_time sample_state 0) \<and>
   AddSeconds sample_time sample_state 0 60 =
     Inr (sample_state\<lparr>heap := heap sample_state @
            [\<lparr>Time = 90060, Layout = ''2006-01-02 15:04:05''\<rparr>]\<rparr>, 1)"
proof -
  have pos: "0 < length (heap sample_state)"
    by (simp add: sample_state_def)
  have "AddSeconds sample_time sample_state 0 60 =
     Inr (sample_state\<lparr>heap := heap sample_state @
            [\<lparr>Time = 90060, Layout = ''2006-01-02 15:04:05''\<rparr>]\<rparr>, 1)"
    by (simp add: AddSeconds_def deref_def alloc_def sample_state_def sample_time_def
        time_Second_def)
  with pos helpers_do_not_mutate [OF pos, of sample_time 60 0 0 0] show ?thesis
    by simp
qed

section \<open>Steps of the collector\<close>

lemma strings_IndexRune_eq:
  "strings_IndexRune s c = (if c \<in> set s then int (length (takeWhile (\<lambda>x. x \<noteq> c) s)) else - 1)"
  by (induction s) (auto simp: Let_def)

lemma slice_to_dir:
  assumes "CHR ''/'' \<in> set f"
  shows "slice_to f (strings_IndexRune f CHR ''/'') = Inr (pkgKey f)"
proof -
  let ?n = "length (takeWhile (\<lambda>x. x \<noteq> CHR ''/'') f)"
  have le: "?n \<le> length f"
    by (rule length_takeWhile_le)
  have "take ?n f = takeWhile (\<lambda>x. x \<noteq> CHR ''/'') f"
    by (rule takeWhile_eq_take [symmetric])
  with assms le show ?thesis
    by (simp add: slice_to_def strings_IndexRune_eq pkgKey_def)
qed

lemma slice_to_no_dir:
  "CHR ''/'' \<notin> set f \<Longrightarrow> slice_to f (strings_IndexRune f CHR ''/'') = Inl SliceBounds"
  by (simp add: slice_to_def strings_IndexRune_eq)

lemma doWriteDoc2buf_append:
  "doWriteDoc2buf opts fs b filename =
     (b @ fst (doWriteDoc2buf opts fs [] filename), snd (doWriteDoc2buf opts fs [] filename))"
  by (simp add: doWriteDoc2buf_def Let_def)

lemma bufWriteDoc_append:
  "bufWriteDoc opts fs b tpl n = b @ bufWriteDoc opts fs [] tpl n"
  unfolding bufWriteDoc_def Let_def
  by (subst doWriteDoc2buf_append, subst (2) doWriteDoc2buf_append)
     (simp add: doWriteDoc2buf_def Let_def split: prod.splits bool.splits)

lemma bufWriteDoc_marks:
  "map fst (bufWriteDoc opts fs [] tpl n) = [] \<or> map fst (bufWriteDoc opts fs [] tpl n) = [Doc]"
  by (simp add: bufWriteDoc_def doWriteDoc2buf_def Let_def split: prod.splits bool.splits)

lemma writeFuncs_append: "writeFuncs f text b = b @ writeFuncs f text []"
  by (simp add: writeFuncs_eq)

lemma writeFuncs_marks: "set (map fst (writeFuncs f text [])) \<subseteq> {SourceAt, Sig}"
  by (auto simp: writeFuncs_eq)

lemma fmt_Sprintf_PkgLine:
  "fmt_Sprintf ''\<newline>> Package `%s`\<newline>\<newline>'' [pkgPath] = ''\<newline>> Package `'' @ pkgPath @ ''`\<newline>\<newline>''"
  by simp

lemma buf_openSection:
  "map_of (pkgFuncs st) (basePkg @ ''/'' @ dir) = None \<Longrightarrow>
   buf (openSection opts fs dir (basePkg @ ''/'' @ dir) st) =
     buf st @ sectionStart opts fs basePkg st dir"
  unfolding openSection_def sectionStart_def Let_def
  apply (subst bufWriteDoc_append)
  apply (subst (2) bufWriteDoc_append)
  by (simp add: bufWriteln_def bufWritef_def fmt_Sprintln_def headingLine_def)


lemma collectFile_skipped:
  assumes "\<not> processed f"
    and "strings_HasSuffix f ''_test.go'' \<or> strings_HasSuffix f ''_windows.go'' \<or> CHR ''/'' \<in> set f"
  shows "collectFile opts fs basePkg st f = Inr st"
  using assms
  by (auto simp: collectFile_def processed_def slice_to_dir arrutil_StringsHas_def)

lemma collectFile_processed:
  assumes "processed f" and "CHR ''/'' \<in> set f" and "fs f = Some text"
  shows "\<exists>st'. collectFile opts fs basePkg st f = Inr st' \<and>
           buf st' = buf st @ sectionStart opts fs basePkg st (pkgKey f) @ writeFuncs f text [] \<and>
           fst ` set (pkgFuncs st') = insert (basePkg @ ''/'' @ pkgKey f) (fst ` set (pkgFuncs st)) \<and>
           reads st' = reads st @ [f] \<and>
           dirname st' =
             (if map_of (pkgFuncs st) (basePkg @ ''/'' @ pkgKey f) = None then pkgKey f
              else dirname st)"
proof (cases "map_of (pkgFuncs st) (basePkg @ ''/'' @ pkgKey f)")
  case None
  then have "buf (openSection opts fs (pkgKey f) (basePkg @ ''/'' @ pkgKey f)
                (st\<lparr>pkgNames := AList.update (pkgKey f) (basePkg @ ''/'' @ pkgKey f) (pkgNames st)\<rparr>)) =
             buf st @ sectionStart opts fs basePkg st (pkgKey f)"
    by (subst buf_openSection) (simp_all add: sectionStart_def)
  with assms None show ?thesis
    unfolding collectFile_def processed_def
    apply (simp add: slice_to_dir arrutil_StringsHas_def fsutil_MustReadFile_def Let_def)
    apply (subst writeFuncs_append)
    by (simp add: openSection_def Let_def dom_update)
next
  case (Some ss)
  with assms show ?thesis
    unfolding collectFile_def processed_def
    apply (simp add: slice_to_dir arrutil_StringsHas_def fsutil_MustReadFile_def Let_def)
    apply (subst writeFuncs_append)
    by (auto simp: sectionStart_def dom_update dest: map_of_SomeD)
qed

lemma collectFile_InrD:
  assumes "collectFile opts fs basePkg st f = Inr st'"
  shows "(\<not> processed f \<and> st' = st) \<or> (processed f \<and> CHR ''/'' \<in> set f \<and> fs f \<noteq> None)"
proof (cases "strings_HasSuffix f ''_test.go'' \<or> strings_HasSuffix f ''_windows.go''")
  case True
  then have "\<not> processed f" by (auto simp: processed_def)
  with True assms show ?thesis by (auto simp: collectFile_skipped)
next
  case False
  show ?thesis
  proof (cases "CHR ''/'' \<in> set f")
    case False
    with \<open>\<not> (strings_HasSuffix f ''_test.go'' \<or> strings_HasSuffix f ''_windows.go'')\<close> assms
    show ?thesis by (simp add: collectFile_def slice_to_no_dir)
  next
    case True
    show ?thesis
    proof (cases "processed f")
      case False
      with True assms show ?thesis by (simp add: collectFile_skipped)
    next
      case True
      with False \<open>CHR ''/'' \<in> set f\<close> assms show ?thesis
        by (auto simp: collectFile_def processed_def slice_to_dir arrutil_StringsHas_def
            fsutil_MustReadFile_def Let_def split: option.splits)
    qed
  qed
qed

lemma collectLoop_reads:
  assumes "\<forall>f\<in>set ms. CHR ''/'' \<in> set f" and "\<forall>f\<in>set ms. processed f \<longrightarrow> fs f \<noteq> None"
  shows "\<exists>st'. collectLoop opts fs basePkg st ms = Inr st' \<and>
           reads st' = reads st @ filter processed ms \<and>
           (filter processed ms = [] \<longrightarrow> st' = st)"
  using assms
proof (induction ms arbitrary: st)
  case Nil
  then show ?case by simp
next
  case (Cons f ms)
  from Cons.prems have slash: "CHR ''/'' \<in> set f" by simp
  show ?case
  proof (cases "processed f")
    case False
    with slash have "collectFile opts fs basePkg st f = Inr st"
      by (simp add: collectFile_skipped)
    with False Cons.IH [of st] Cons.prems show ?thesis by simp
  next
    case True
    with Cons.prems obtain body where "fs f = Some body" by auto
    from collectFile_processed [where f = f and fs = fs and st = st, OF True slash this]
    obtain st1 where st1: "collectFile opts fs basePkg st f = Inr st1" "reads st1 = reads st @ [f]"
      by (metis (no_types))
    from Cons.IH [of st1] Cons.prems
    obtain st' where "collectLoop opts fs basePkg st1 ms = Inr st'"
      "reads st' = reads st1 @ filter processed ms" by auto
    with st1 True show ?thesis by simp
  qed
qed

text \<open>
  Claim C3. For a sequence of candidate paths of the form \<open>dir/file\<close>, as the glob
  \<open>./*/*.go\<close> yields them, whose processed files can be read, the collector returns
  without an error and the files it reads are, in order, exactly the paths that are not
  in a hidden subdirectory and end neither in \<open>_test.go\<close> nor in \<open>_windows.go\<close>. When
  no path remains the result is the empty buffer.
\<close>

theorem filtering_complete:
  assumes "\<forall>f\<in>set ms. CHR ''/'' \<in> set f" and "\<forall>f\<in>set ms. processed f \<longrightarrow> fs f \<noteq> None"
  shows "\<exists>st. collectPgkFunc opts fs ms basePkg = Inr st \<and>
           reads st = filter processed ms \<and>
           (filter processed ms = [] \<longrightarrow> buf st = [])"
proof -
  from collectLoop_reads [OF assms, of opts basePkg "collector0 []"]
  obtain st' where loop: "collectLoop opts fs basePkg (collector0 []) ms = Inr st'"
    and rd: "reads st' = filter processed ms"
    and em: "filter processed ms = [] \<longrightarrow> st' = collector0 []"
    by (auto simp: collector0_def)
  have "collectPgkFunc opts fs ms basePkg = Inr (finish opts fs st')"
    using loop by (simp add: collectPgkFunc_def)
  moreover have "reads (finish opts fs st') = filter processed ms"
    using rd by (simp add: finish_def)
  moreover have "filter processed ms = [] \<longrightarrow> buf (finish opts fs st') = []"
    using em by (auto simp: finish_def collector0_def)
  ultimately show ?thesis by blast
qed

lemma phase_run_append:
  "phase_run p (xs @ ys) = (case phase_run p xs of None \<Rightarrow> None | Some q \<Rightarrow> phase_run q ys)"
  by (induction xs arbitrary: p) (auto split: option.splits)

lemma phase_run_lines: "set ms \<subseteq> {SourceAt, Sig} \<Longrightarrow> phase_run Fenced ms = Some Fenced"
  by (induction ms) auto

lemma phase_run_sectionStart:
  "phase_run (if pkgFuncs st = [] then Idle else Fenced)
     (map fst (sectionStart opts fs basePkg st dir)) = Some Fenced"
proof (cases "map_of (pkgFuncs st) (basePkg @ ''/'' @ dir)")
  case (Some ss)
  then have "pkgFuncs st \<noteq> []" by auto
  with Some show ?thesis by (simp add: sectionStart_def)
next
  case None
  from bufWriteDoc_marks [of opts fs partDocTplE "dirname st"]
       bufWriteDoc_marks [of opts fs partDocTplS "displayName dir"]
  show ?thesis
    using None by (auto simp: sectionStart_def phase_run_append)
qed

lemma phase_inv_collectFile:
  assumes "collectFile opts fs basePkg st f = Inr st'" and "phase_inv st"
  shows "phase_inv st'"
proof -
  from collectFile_InrD [OF assms(1)] show ?thesis
  proof
    assume "\<not> processed f \<and> st' = st"
    with assms(2) show ?thesis by simp
  next
    assume p: "processed f \<and> CHR ''/'' \<in> set f \<and> fs f \<noteq> None"
    then obtain body where body: "fs f = Some body" by auto
    from collectFile_processed [where f = f and fs = fs and st = st and opts = opts and basePkg = basePkg,
        OF _ _ body] p assms(1)
    have b: "buf st' = buf st @ sectionStart opts fs basePkg st (pkgKey f) @ writeFuncs f body []"
      and k: "fst ` set (pkgFuncs st') = insert (basePkg @ ''/'' @ pkgKey f) (fst ` set (pkgFuncs st))"
      by auto
    from k have ne: "pkgFuncs st' \<noteq> []" by auto
    have "phase_run Idle (map fst (buf st')) = Some Fenced"
      using assms(2) phase_run_sectionStart [of st opts fs basePkg "pkgKey f"]
        phase_run_lines [OF writeFuncs_marks [of f body]]
      unfolding b phase_inv_def by (simp add: phase_run_append)
    with ne show ?thesis by (simp add: phase_inv_def)
  qed
qed

lemma phase_inv_collectLoop:
  "collectLoop opts fs basePkg st ms = Inr st' \<Longrightarrow> phase_inv st \<Longrightarrow> phase_inv st'"
proof (induction ms arbitrary: st)
  case Nil
  then show ?case by simp
next
  case (Cons f ms)
  then show ?case
    by (auto split: sum.splits dest: phase_inv_collectFile)
qed

lemma buf_finish:
  "buf (finish opts fs st) =
     buf st @ (if pkgFuncs st \<noteq> []
               then (FenceClose, ''```\<newline>'') # bufWriteDoc opts fs [] partDocTplE (dirname st)
               else [])"
  unfolding finish_def
  by (subst bufWriteDoc_append) (simp add: bufWriteln_def fmt_Sprintln_def)

lemma well_fenced_finish: "phase_inv st \<Longrightarrow> well_fenced (buf (finish opts fs st))"
  using bufWriteDoc_marks [of opts fs partDocTplE "dirname st"]
  unfolding buf_finish
  by (auto simp: well_fenced_def phase_inv_def phase_run_append)

lemma written_append: "written m (b @ c) = written m b @ written m c"
  by (simp add: written_def)

lemma written_absent: "m \<notin> set (map fst b) \<Longrightarrow> written m b = []"
  by (induction b) (auto simp: written_def)

lemma written_Nil: "written m [] = []"
  by (simp add: written_def)

lemma written_Cons: "written m ((k, t) # b) = (if k = m then t # written m b else written m b)"
  by (simp add: written_def)

lemma written_bufWriteDoc: "m \<noteq> Doc \<Longrightarrow> written m (bufWriteDoc opts fs [] tpl n) = []"
  using bufWriteDoc_marks [of opts fs tpl n] by (auto intro: written_absent)

lemma written_writeFuncs: "m \<noteq> SourceAt \<Longrightarrow> m \<noteq> Sig \<Longrightarrow> written m (writeFuncs f body []) = []"
  using writeFuncs_marks [of f body] by (intro written_absent) auto

lemma written_sectionStart_Heading:
  "written Heading (sectionStart opts fs basePkg st dir) =
     (if map_of (pkgFuncs st) (basePkg @ ''/'' @ dir) = None then [headingLine dir] else [])"
  by (simp add: sectionStart_def written_append written_bufWriteDoc written_Cons written_Nil)

lemma written_sectionStart_FenceOpen:
  "length (written FenceOpen (sectionStart opts fs basePkg st dir)) =
     (if map_of (pkgFuncs st) (basePkg @ ''/'' @ dir) = None then 1 else 0)"
  by (simp add: sectionStart_def written_append written_bufWriteDoc written_Cons written_Nil)

lemma written_sectionStart_FenceClose:
  "length (written FenceClose (sectionStart opts fs basePkg st dir)) =
     (if map_of (pkgFuncs st) (basePkg @ ''/'' @ dir) = None \<and> pkgFuncs st \<noteq> [] then 1 else 0)"
  by (simp add: sectionStart_def written_append written_bufWriteDoc written_Cons written_Nil)

lemma pkgPath_unseen:
  assumes "fst ` set (pkgFuncs st) = (\<lambda>d. basePkg @ ''/'' @ d) ` set seen"
  shows "map_of (pkgFuncs st) (basePkg @ ''/'' @ dir) = None \<longleftrightarrow> dir \<notin> set seen"
  using assms by (auto simp: map_of_eq_None_iff)

lemma sections_collectLoop:
  assumes "collectLoop opts fs basePkg st ms = Inr st'" and "keys_inv basePkg seen st"
  shows "written Heading (buf st') =
           written Heading (buf st) @ map headingLine (newKeys seen (map pkgKey (filter processed ms))) \<and>
         length (written FenceOpen (buf st')) =
           length (written FenceOpen (buf st)) + length (newKeys seen (map pkgKey (filter processed ms))) \<and>
         length (written FenceOpen (buf st')) =
           length (written FenceClose (buf st')) + (if pkgFuncs st' = [] then 0 else 1)"
  using assms
proof (induction ms arbitrary: st seen)
  case Nil
  then show ?case by (simp add: keys_inv_def)
next
  case (Cons f ms)
  from Cons.prems(1) obtain st1 where
    step: "collectFile opts fs basePkg st f = Inr st1" and
    loop: "collectLoop opts fs basePkg st1 ms = Inr st'"
    by (auto split: sum.splits)
  from collectFile_InrD [OF step] show ?case
  proof
    assume "\<not> processed f \<and> st1 = st"
    with Cons.IH [of st seen] loop Cons.prems(2) show ?thesis by simp
  next
    assume p: "processed f \<and> CHR ''/'' \<in> set f \<and> fs f \<noteq> None"
    then obtain body where body: "fs f = Some body" by auto
    let ?dir = "pkgKey f"
    from collectFile_processed [where f = f and fs = fs and st = st and opts = opts and basePkg = basePkg,
        OF _ _ body] p step
    have b: "buf st1 = buf st @ sectionStart opts fs basePkg st ?dir @ writeFuncs f body []"
      and k: "fst ` set (pkgFuncs st1) = insert (basePkg @ ''/'' @ ?dir) (fst ` set (pkgFuncs st))"
      by auto
    from Cons.prems(2) have keys: "fst ` set (pkgFuncs st) = (\<lambda>d. basePkg @ ''/'' @ d) ` set seen"
      and bal: "length (written FenceOpen (buf st)) =
                  length (written FenceClose (buf st)) + (if pkgFuncs st = [] then 0 else 1)"
      by (simp_all add: keys_inv_def)
    note unseen = pkgPath_unseen [OF keys, of ?dir]
    from k have ne: "pkgFuncs st1 \<noteq> []" by auto
    have seen_ne: "?dir \<in> set seen \<Longrightarrow> pkgFuncs st \<noteq> []"
      using keys by auto
    let ?seen1 = "if ?dir \<in> set seen then seen else ?dir # seen"
    have inv1: "keys_inv basePkg ?seen1 st1"
      unfolding keys_inv_def b
      using k keys bal ne unseen seen_ne
      by (auto simp: written_append written_writeFuncs written_sectionStart_FenceOpen
          written_sectionStart_FenceClose)
    from Cons.IH [OF loop inv1] p unseen show ?thesis
      unfolding b
      by (auto simp: written_append written_writeFuncs written_sectionStart_Heading
          written_sectionStart_FenceOpen)
  qed
qed

text \<open>
  Claim C1, as amended. A section is opened for a processed file exactly when its
  package key has not occurred on an earlier processed file: the headings in the output
  are those of the distinct keys in order of first occurrence, and there are as many
  opening fences and as many closing fences as headings. For the keys
  \<open>[a, a, b, b, a]\<close> these are two sections, \<open>a\<close> then \<open>b\<close>.
\<close>

theorem sections_by_first_occurrence:
  assumes "collectPgkFunc opts fs ms basePkg = Inr st"
  shows "written Heading (buf st) = map headingLine (newKeys [] (map pkgKey (filter processed ms))) \<and>
         length (written FenceOpen (buf st)) = length (newKeys [] (map pkgKey (filter processed ms))) \<and>
         length (written FenceClose (buf st)) = length (newKeys [] (map pkgKey (filter processed ms)))"
proof -
  from assms obtain st' where loop: "collectLoop opts fs basePkg (collector0 []) ms = Inr st'"
    and st: "st = finish opts fs st'"
    by (auto simp: collectPgkFunc_def split: sum.splits)
  have "keys_inv basePkg [] (collector0 [])"
    by (simp add: keys_inv_def collector0_def written_Nil)
  from sections_collectLoop [OF loop this]
  have h: "written Heading (buf st') = map headingLine (newKeys [] (map pkgKey (filter processed ms)))"
    and o: "length (written FenceOpen (buf st')) = length (newKeys [] (map pkgKey (filter processed ms)))"
    and c: "length (written FenceOpen (buf st')) =
              length (written FenceClose (buf st')) + (if pkgFuncs st' = [] then 0 else 1)"
    by (simp_all add: collector0_def written_Nil)
  show ?thesis
    unfolding st buf_finish using h o c
    by (auto simp: written_append written_Cons written_Nil written_bufWriteDoc split: if_splits)
qed

lemma sample_files_ok:
  "(\<forall>f\<in>set sample_ms. CHR ''/'' \<in> set f) \<and> (\<forall>f\<in>set sample_ms. processed f \<longrightarrow> sample_fs f \<noteq> None)"
  by (simp add: sample_ms_def sample_fs_def)

lemma sample_run:
  "collectPgkFunc sample_opts sample_fs sample_ms ''base'' =
     Inr (projr (collectPgkFunc sample_opts sample_fs sample_ms ''base''))"
proof -
  from sample_files_ok collectLoop_reads [of sample_ms sample_fs sample_opts "''base''" "collector0 []"]
  obtain st' where "collectLoop sample_opts sample_fs ''base'' (collector0 []) sample_ms = Inr st'"
    by blast
  then show ?thesis by (simp add: collectPgkFunc_def)
qed

lemma sample_keys: "map pkgKey (filter processed sample_ms) = [''a'', ''a'', ''b'', ''b'', ''a'']"
  by code_simp

theorem sections_by_first_occurrence_witness:
  "collectPgkFunc sample_opts sample_fs sample_ms ''base'' =
     Inr (projr (collectPgkFunc sample_opts sample_fs sample_ms ''base'')) \<and>
   written Heading (buf (projr (collectPgkFunc sample_opts sample_fs sample_ms ''base''))) =
     [''\<newline>### A\<newline>'', ''\<newline>### B\<newline>''] \<and>
   length (written FenceOpen (buf (projr (collectPgkFunc sample_opts sample_fs sample_ms ''base'')))) = 2 \<and>
   length (written FenceClose (buf (projr (collectPgkFunc sample_opts sample_fs sample_ms ''base'')))) = 2"
proof -
  have hl: "map headingLine [''a'', ''b''] = [''\<newline>### A\<newline>'', ''\<newline>### B\<newline>'']"
    by code_simp
  from sections_by_first_occurrence [OF sample_run] hl show ?thesis
    using sample_run by (simp add: sample_keys)
qed

text \<open>
  The claim as the spec words it (a section whenever the key differs from the key of the
  file before) fails on the keys \<open>[a, a, b, b, a]\<close>: the output has the two headings
  \<open>A\<close> and \<open>B\<close>, not the three headings \<open>A\<close>, \<open>B\<close>, \<open>A\<close>.
\<close>

theorem five_files_two_sections:
  "map pkgKey [''a/f1.go'', ''a/f2.go'', ''b/f1.go'', ''b/f2.go'', ''a/f3.go''] =
     [''a'', ''a'', ''b'', ''b'', ''a''] \<and>
   map_sum id (written Heading \<circ> buf)
     (collectPgkFunc sample_opts sample_fs
        [''a/f1.go'', ''a/f2.go'', ''b/f1.go'', ''b/f2.go'', ''a/f3.go''] ''base'') =
     Inr [''\<newline>### A\<newline>'', ''\<newline>### B\<newline>''] \<and>
   map_sum id (written Heading \<circ> buf)
     (collectPgkFunc sample_opts sample_fs
        [''a/f1.go'', ''a/f2.go'', ''b/f1.go'', ''b/f2.go'', ''a/f3.go''] ''base'') \<noteq>
     Inr (map headingLine (changedKeys None [''a'', ''a'', ''b'', ''b'', ''a'']))"
  by code_simp

section \<open>Template assembly and fragments\<close>

lemma strings_HasPrefix_append: "strings_HasPrefix (tok @ post) tok"
  by (simp add: strings_HasPrefix_def)

lemma strings_Index_prefix: "strings_HasPrefix s tok \<Longrightarrow> strings_Index s tok = Some 0"
  by (cases s) (auto simp: strings_HasPrefix_def)

lemma strings_Index_first:
  assumes "\<forall>i<length pre. \<not> strings_HasPrefix (drop i (pre @ tok @ post)) tok"
  shows "strings_Index (pre @ tok @ post) tok = Some (length pre)"
  using assms
proof (induction pre)
  case Nil
  show ?case
    using strings_HasPrefix_append [of tok post] by (simp add: strings_Index_prefix)
next
  case (Cons x pre)
  from Cons.prems have "\<not> strings_HasPrefix (x # pre @ tok @ post) tok"
    by (metis append_Cons drop0 length_greater_0_conv list.discI)
  moreover from Cons.prems have "\<forall>i<length pre. \<not> strings_HasPrefix (drop i (pre @ tok @ post)) tok"
    by (metis Suc_less_eq append_Cons drop_Suc_Cons length_Cons)
  ultimately show ?case using Cons.IH by simp
qed

lemma occurrences_pos:
  "i \<le> length s \<Longrightarrow> strings_HasPrefix (drop i s) tok \<Longrightarrow> occurrences tok s \<ge> 1"
proof (induction s arbitrary: i)
  case Nil
  then show ?case by (simp add: strings_HasPrefix_def)
next
  case (Cons x xs)
  show ?case
  proof (cases i)
    case 0
    with Cons.prems show ?thesis by simp
  next
    case (Suc j)
    with Cons.prems Cons.IH [of j] show ?thesis by simp
  qed
qed

lemma occurrences_ge:
  "i < length s \<Longrightarrow> strings_HasPrefix (drop i s) tok \<Longrightarrow>
   occurrences tok s \<ge> 1 + occurrences tok (drop (Suc i) s)"
proof (induction s arbitrary: i)
  case Nil
  then show ?case by simp
next
  case (Cons x xs)
  show ?case
  proof (cases i)
    case 0
    with Cons.prems show ?thesis by simp
  next
    case (Suc j)
    with Cons.prems Cons.IH [of j] show ?thesis by simp
  qed
qed

lemma occurrences_once_first:
  assumes once: "occurrences tok (pre @ tok @ post) = 1"
  shows "\<forall>i<length pre. \<not> strings_HasPrefix (drop i (pre @ tok @ post)) tok"
proof (intro allI impI notI)
  fix i
  assume i: "i < length pre" and p: "strings_HasPrefix (drop i (pre @ tok @ post)) tok"
  let ?s = "pre @ tok @ post"
  have "occurrences tok ?s \<ge> 1 + occurrences tok (drop (Suc i) ?s)"
    using i p by (intro occurrences_ge) simp_all
  moreover have "occurrences tok (drop (Suc i) ?s) \<ge> 1"
  proof (rule occurrences_pos [of "length pre - Suc i"])
    show "length pre - Suc i \<le> length (drop (Suc i) ?s)" using i by simp
    have "drop (length pre - Suc i) (drop (Suc i) ?s) = tok @ post"
      using i by simp
    then show "strings_HasPrefix (drop (length pre - Suc i) (drop (Suc i) ?s)) tok"
      by (simp add: strings_HasPrefix_append)
  qed
  ultimately show False using once by simp
qed

lemma strings_Replace_once:
  assumes "occurrences tok (pre @ tok @ post) = 1"
  shows "strings_Replace (pre @ tok @ post) tok new 1 = pre @ new @ post"
proof (cases "tok = new")
  case True
  then show ?thesis by (simp add: One_nat_def)
next
  case False
  have "strings_Index (pre @ tok @ post) tok = Some (length pre)"
    using assms by (intro strings_Index_first occurrences_once_first)
  with False show ?thesis by (simp add: One_nat_def)
qed

text \<open>
  Claim C5. When the template holds the placeholder \<open>{{pgkFuncs}}\<close> exactly once, the
  text written is the template with that occurrence replaced by the content of the
  buffer and every other byte as it was; with no template content the text written is
  the content of the buffer.
\<close>

theorem placeholder_substitution:
  "(tplBody = pre @ ''{{pgkFuncs}}'' @ post \<and> occurrences ''{{pgkFuncs}}'' tplBody = 1 \<longrightarrow>
      main_write tplBody b = pre @ bufString b @ post) \<and>
   main_write [] b = bufString b"
proof (intro conjI impI)
  assume "tplBody = pre @ ''{{pgkFuncs}}'' @ post \<and> occurrences ''{{pgkFuncs}}'' tplBody = 1"
  then have t: "tplBody = pre @ ''{{pgkFuncs}}'' @ post"
    and once': "occurrences ''{{pgkFuncs}}'' tplBody = 1"
    by blast+
  from once' have once: "occurrences ''{{pgkFuncs}}'' (pre @ ''{{pgkFuncs}}'' @ post) = 1"
    unfolding t .
  have "length tplBody > 0" unfolding t by simp
  then have "main_write tplBody b = strings_Replace tplBody ''{{pgkFuncs}}'' (bufString b) 1"
    by (simp add: main_write_def)
  also have "\<dots> = pre @ bufString b @ post"
    unfolding t using once by (rule strings_Replace_once)
  finally show "main_write tplBody b = pre @ bufString b @ post" .
next
  show "main_write [] b = bufString b"
    by (simp add: main_write_def)
qed

lemma bufWriteDoc_lookup:
  "bufWriteDoc opts fs b tpl pkgName =
     (let first = fsutil_ReadExistFile fs (fragmentPath opts tpl pkgName (langSuffix opts));
          second = fsutil_ReadExistFile fs (fragmentPath opts tpl pkgName [])
      in if first \<noteq> [] then b @ [(Doc, first @ ''\<newline>'')]
         else if second \<noteq> [] then b @ [(Doc, second @ ''\<newline>'')]
         else b)"
  by (simp add: bufWriteDoc_def doWriteDoc2buf_def fragmentPath_def langSuffix_def Let_def
      fmt_Sprintln_def)

lemma bufWriteDoc_no_fragment:
  "no_fragment opts fs tpl pkgName \<Longrightarrow> bufWriteDoc opts fs b tpl pkgName = b"
  by (simp add: bufWriteDoc_lookup no_fragment_def fsutil_ReadExistFile_def)

lemma same_package_loop:
  assumes "\<forall>f\<in>set ms. processed f \<and> CHR ''/'' \<in> set f \<and> pkgKey f = dir \<and> fs f \<noteq> None"
    and "map_of (pkgFuncs st) (basePkg @ ''/'' @ dir) \<noteq> None"
  shows "\<exists>st'. collectLoop opts fs basePkg st ms = Inr st' \<and>
           buf st' = buf st @ concat (map (\<lambda>f. writeFuncs f (the (fs f)) []) ms) \<and>
           pkgFuncs st' \<noteq> [] \<and> dirname st' = dirname st"
  using assms
proof (induction ms arbitrary: st)
  case Nil
  then show ?case by auto
next
  case (Cons f ms)
  from Cons.prems(1) obtain body where f: "processed f" "CHR ''/'' \<in> set f" "pkgKey f = dir"
    and body: "fs f = Some body" by auto
  from collectFile_processed [where f = f and fs = fs and st = st and opts = opts and basePkg = basePkg,
      OF f(1,2) body]
  obtain st1 where step: "collectFile opts fs basePkg st f = Inr st1"
    and b1: "buf st1 = buf st @ sectionStart opts fs basePkg st (pkgKey f) @ writeFuncs f body []"
    and k1: "fst ` set (pkgFuncs st1) = insert (basePkg @ ''/'' @ pkgKey f) (fst ` set (pkgFuncs st))"
    and d1: "dirname st1 = (if map_of (pkgFuncs st) (basePkg @ ''/'' @ pkgKey f) = None then pkgKey f
              else dirname st)"
    by blast
  from k1 f(3) have "map_of (pkgFuncs st1) (basePkg @ ''/'' @ dir) \<noteq> None"
    by (simp add: map_of_eq_None_iff)
  from Cons.IH [OF _ this] Cons.prems(1)
  obtain st' where loop: "collectLoop opts fs basePkg st1 ms = Inr st'"
    and b': "buf st' = buf st1 @ concat (map (\<lambda>f. writeFuncs f (the (fs f)) []) ms)"
    and r': "pkgFuncs st' \<noteq> []" "dirname st' = dirname st1"
    by auto
  from Cons.prems(2) f(3) have "sectionStart opts fs basePkg st (pkgKey f) = []"
    by (simp add: sectionStart_def)
  moreover from d1 Cons.prems(2) f(3) have "dirname st1 = dirname st"
    by auto
  ultimately show ?case
    using step loop b1 b' r' f(3) body by simp
qed

lemma sectionStart_no_fragment:
  assumes "map_of (pkgFuncs st) (basePkg @ ''/'' @ dir) = None"
    and "no_fragment opts fs partDocTplS (displayName dir)"
  shows "sectionStart opts fs basePkg st dir =
           (if pkgFuncs st \<noteq> []
            then (FenceClose, ''```\<newline>'') # bufWriteDoc opts fs [] partDocTplE (dirname st)
            else []) @
           [(Heading, headingLine dir),
            (PkgLine, ''\<newline>> Package `'' @ basePkg @ ''/'' @ dir @ ''`\<newline>\<newline>''),
            (FenceOpen, ''```go\<newline>'')]"
  using assms by (simp add: sectionStart_def bufWriteDoc_no_fragment)

text \<open>
  Claim C7. When neither the configured language's nor the default fragment file
  exists, \<open>bufWriteDoc\<close> leaves the buffer as it is, and no error is possible. The
  first file of a package whose start fragment is missing still writes the heading, the
  package line, the opening fence and its signature lines; and a run over the files of
  one package with no fragments returns the heading, the package line, the fence with
  the lines of every file, and the closing fence.
\<close>

theorem missing_fragment_not_error:
  "(no_fragment opts fs tpl pkgName \<longrightarrow> bufWriteDoc opts fs b tpl pkgName = b) \<and>
   (processed f \<and> CHR ''/'' \<in> set f \<and> fs f = Some body \<and>
    map_of (pkgFuncs st) (basePkg @ ''/'' @ pkgKey f) = None \<and>
    no_fragment opts fs partDocTplS (displayName (pkgKey f)) \<longrightarrow>
      (\<exists>st'. collectFile opts fs basePkg st f = Inr st' \<and>
         buf st' =
           buf st @
           (if pkgFuncs st \<noteq> []
            then (FenceClose, ''```\<newline>'') # bufWriteDoc opts fs [] partDocTplE (dirname st)
            else []) @
           [(Heading, headingLine (pkgKey f)),
            (PkgLine, ''\<newline>> Package `'' @ basePkg @ ''/'' @ pkgKey f @ ''`\<newline>\<newline>''),
            (FenceOpen, ''```go\<newline>'')] @
           writeFuncs f body [])) \<and>
   (ms \<noteq> [] \<and> (\<forall>g\<in>set ms. processed g \<and> CHR ''/'' \<in> set g \<and> pkgKey g = dir \<and> fs g \<noteq> None) \<and>
    no_fragment opts fs partDocTplS (displayName dir) \<and> no_fragment opts fs partDocTplE dir \<longrightarrow>
      (\<exists>st'. collectPgkFunc opts fs ms basePkg = Inr st' \<and>
         buf st' =
           [(Heading, headingLine dir),
            (PkgLine, ''\<newline>> Package `'' @ basePkg @ ''/'' @ dir @ ''`\<newline>\<newline>''),
            (FenceOpen, ''```go\<newline>'')] @
           concat (map (\<lambda>g. writeFuncs g (the (fs g)) []) ms) @
           [(FenceClose, ''```\<newline>'')]))"
proof (intro conjI impI)
  assume "no_fragment opts fs tpl pkgName"
  then show "bufWriteDoc opts fs b tpl pkgName = b"
    by (rule bufWriteDoc_no_fragment)
next
  assume a: "processed f \<and> CHR ''/'' \<in> set f \<and> fs f = Some body \<and>
    map_of (pkgFuncs st) (basePkg @ ''/'' @ pkgKey f) = None \<and>
    no_fragment opts fs partDocTplS (displayName (pkgKey f))"
  then have f: "processed f" "CHR ''/'' \<in> set f" and body: "fs f = Some body"
    and new: "map_of (pkgFuncs st) (basePkg @ ''/'' @ pkgKey f) = None"
    and nf: "no_fragment opts fs partDocTplS (displayName (pkgKey f))"
    by blast+
  from collectFile_processed [where f = f and fs = fs and st = st and opts = opts and basePkg = basePkg,
      OF f body]
  obtain st' where "collectFile opts fs basePkg st f = Inr st'"
    and "buf st' = buf st @ sectionStart opts fs basePkg st (pkgKey f) @ writeFuncs f body []"
    by blast
  then show "\<exists>st'. collectFile opts fs basePkg st f = Inr st' \<and>
         buf st' =
           buf st @
           (if pkgFuncs st \<noteq> []
            then (FenceClose, ''```\<newline>'') # bufWriteDoc opts fs [] partDocTplE (dirname st)
            else []) @
           [(Heading, headingLine (pkgKey f)),
            (PkgLine, ''\<newline>> Package `'' @ basePkg @ ''/'' @ pkgKey f @ ''`\<newline>\<newline>''),
            (FenceOpen, ''```go\<newline>'')] @
           writeFuncs f body []"
    unfolding sectionStart_no_fragment [OF new nf] by simp
next
  assume a: "ms \<noteq> [] \<and> (\<forall>g\<in>set ms. processed g \<and> CHR ''/'' \<in> set g \<and> pkgKey g = dir \<and> fs g \<noteq> None) \<and>
    no_fragment opts fs partDocTplS (displayName dir) \<and> no_fragment opts fs partDocTplE dir"
  then obtain f rest where ms: "ms = f # rest" by (cases ms) auto
  from a ms obtain body where f: "processed f" "CHR ''/'' \<in> set f" "pkgKey f = dir"
    and body: "fs f = Some body"
    and rest: "\<forall>g\<in>set rest. processed g \<and> CHR ''/'' \<in> set g \<and> pkgKey g = dir \<and> fs g \<noteq> None"
    and nfS: "no_fragment opts fs partDocTplS (displayName dir)"
    and nfE: "no_fragment opts fs partDocTplE dir"
    by auto
  let ?st0 = "collector0 []"
  have new: "map_of (pkgFuncs ?st0) (basePkg @ ''/'' @ dir) = None"
    by (simp add: collector0_def)
  from collectFile_processed [where f = f and fs = fs and st = ?st0 and opts = opts and basePkg = basePkg,
      OF f(1,2) body]
  obtain st1 where step: "collectFile opts fs basePkg ?st0 f = Inr st1"
    and b1: "buf st1 = buf ?st0 @ sectionStart opts fs basePkg ?st0 (pkgKey f) @ writeFuncs f body []"
    and k1: "fst ` set (pkgFuncs st1) = insert (basePkg @ ''/'' @ pkgKey f) (fst ` set (pkgFuncs ?st0))"
    and d1: "dirname st1 = (if map_of (pkgFuncs ?st0) (basePkg @ ''/'' @ pkgKey f) = None then pkgKey f
              else dirname ?st0)"
    by blast
  from k1 f(3) have open1: "map_of (pkgFuncs st1) (basePkg @ ''/'' @ dir) \<noteq> None"
    by (simp add: map_of_eq_None_iff)
  from same_package_loop [OF rest open1, of opts]
  obtain st2 where loop: "collectLoop opts fs basePkg st1 rest = Inr st2"
    and b2: "buf st2 = buf st1 @ concat (map (\<lambda>g. writeFuncs g (the (fs g)) []) rest)"
    and r2: "pkgFuncs st2 \<noteq> []" "dirname st2 = dirname st1"
    by blast
  have run: "collectPgkFunc opts fs ms basePkg = Inr (finish opts fs st2)"
    using step loop by (simp add: collectPgkFunc_def ms)
  have "buf (finish opts fs st2) =
           [(Heading, headingLine dir),
            (PkgLine, ''\<newline>> Package `'' @ basePkg @ ''/'' @ dir @ ''`\<newline>\<newline>''),
            (FenceOpen, ''```go\<newline>'')] @
           concat (map (\<lambda>g. writeFuncs g (the (fs g)) []) ms) @
           [(FenceClose, ''```\<newline>'')]"
    unfolding buf_finish b2 b1 f(3) sectionStart_no_fragment [OF new nfS]
    using r2 d1 new f(3) nfE body
    by (simp add: ms collector0_def bufWriteDoc_no_fragment)
  with run show "\<exists>st'. collectPgkFunc opts fs ms basePkg = Inr st' \<and>
         buf st' =
           [(Heading, headingLine dir),
            (PkgLine, ''\<newline>> Package `'' @ basePkg @ ''/'' @ dir @ ''`\<newline>\<newline>''),
            (FenceOpen, ''```go\<newline>'')] @
           concat (map (\<lambda>g. writeFuncs g (the (fs g)) []) ms) @
           [(FenceClose, ''```\<newline>'')]"
    by blast
qed

theorem filtering_complete_witness:
  "list_all (\<lambda>f. CHR ''/'' \<in> set f) sample_mixed \<and>
   (\<exists>st. collectPgkFunc sample_opts sample_fs sample_mixed ''base'' = Inr st \<and>
      reads st = [''a/f1.go'', ''b/f1.go'']) \<and>
   (\<exists>st. collectPgkFunc sample_opts sample_fs [''internal/gen.go'', ''a/f1_test.go''] ''base'' = Inr st \<and>
      reads st = [] \<and> buf st = [])"
proof -
  have s1: "\<forall>f\<in>set sample_mixed. CHR ''/'' \<in> set f"
    by (simp add: sample_mixed_def)
  have p1: "filter processed sample_mixed = [''a/f1.go'', ''b/f1.go'']"
    by code_simp
  have r1: "\<forall>f\<in>set sample_mixed. processed f \<longrightarrow> sample_fs f \<noteq> None"
  proof
    fix f assume "f \<in> set sample_mixed"
    show "processed f \<longrightarrow> sample_fs f \<noteq> None"
    proof
      assume "processed f"
      with \<open>f \<in> set sample_mixed\<close> have "f \<in> set (filter processed sample_mixed)" by simp
      then show "sample_fs f \<noteq> None" unfolding p1 by (auto simp: sample_fs_def)
    qed
  qed
  have s2: "\<forall>f\<in>set [''internal/gen.go'', ''a/f1_test.go'']. CHR ''/'' \<in> set f"
    by simp
  have p2: "filter processed [''internal/gen.go'', ''a/f1_test.go''] = []"
    by code_simp
  then have r2: "\<forall>f\<in>set [''internal/gen.go'', ''a/f1_test.go'']. processed f \<longrightarrow> sample_fs f \<noteq> None"
    by (metis filter_empty_conv)
  from filtering_complete [OF s1 r1, of sample_opts "''base''"]
       filtering_complete [OF s2 r2, of sample_opts "''base''"] s1
  show ?thesis
    unfolding p1 p2 by (simp add: list_all_iff)
qed

theorem placeholder_substitution_witness:
  "''# API {{pgkFuncs}} end'' = ''# API '' @ ''{{pgkFuncs}}'' @ '' end'' \<and>
   occurrences ''{{pgkFuncs}}'' ''# API {{pgkFuncs}} end'' = 1 \<and>
   main_write ''# API {{pgkFuncs}} end'' [(Sig, ''func Foo()'')] = ''# API func Foo() end''"
proof -
  have d: "''# API {{pgkFuncs}} end'' = ''# API '' @ ''{{pgkFuncs}}'' @ '' end''"
    by simp
  have o: "occurrences ''{{pgkFuncs}}'' ''# API {{pgkFuncs}} end'' = 1"
    by code_simp
  from placeholder_substitution [of "''# API {{pgkFuncs}} end''" "''# API ''" "'' end''" "[(Sig, ''func Foo()'')]"]
    d o
  have "main_write ''# API {{pgkFuncs}} end'' [(Sig, ''func Foo()'')] =
          ''# API '' @ bufString [(Sig, ''func Foo()'')] @ '' end''"
    by blast
  with d o show ?thesis by (simp add: bufString_def)
qed

lemma sample_no_fragment_a:
  "no_fragment sample_opts sample_fs partDocTplS (displayName ''a'') \<and>
   no_fragment sample_opts sample_fs partDocTplE ''a'' \<and>
   no_fragment sample_opts sample_fs partDocTplS ''a''"
  by code_simp

lemma sample_package_a:
  "\<forall>g\<in>set [''a/f1.go'', ''a/f2.go''].
     processed g \<and> CHR ''/'' \<in> set g \<and> pkgKey g = ''a'' \<and> sample_fs g \<noteq> None"
  by code_simp

lemma sample_lines_a:
  "concat (map (\<lambda>g. writeFuncs g (the (sample_fs g)) []) [''a/f1.go'', ''a/f2.go'']) =
     [(SourceAt, ''// source at a/f1.go\<newline>''), (Sig, ''func Foo(a int) string\<newline>'')]"
  by code_simp

lemma sample_first_file:
  "processed ''a/f1.go'' \<and> CHR ''/'' \<in> set ''a/f1.go'' \<and>
   sample_fs ''a/f1.go'' = Some ''package a\<newline>\<newline>func Foo(a int) string {\<newline>func bar(a int) {\<newline>'' \<and>
   map_of (pkgFuncs (collector0 [])) (''base'' @ ''/'' @ pkgKey ''a/f1.go'') = None \<and>
   no_fragment sample_opts sample_fs partDocTplS (displayName (pkgKey ''a/f1.go''))"
  by code_simp

lemma sample_first_lines:
  "buf (collector0 []) @
   (if pkgFuncs (collector0 []) \<noteq> []
    then (FenceClose, ''```\<newline>'') #
         bufWriteDoc sample_opts sample_fs [] partDocTplE (dirname (collector0 []))
    else []) @
   [(Heading, headingLine (pkgKey ''a/f1.go'')),
    (PkgLine, ''\<newline>> Package `'' @ ''base'' @ ''/'' @ pkgKey ''a/f1.go'' @ ''`\<newline>\<newline>''),
    (FenceOpen, ''```go\<newline>'')] @
   writeFuncs ''a/f1.go'' ''package a\<newline>\<newline>func Foo(a int) string {\<newline>func bar(a int) {\<newline>'' [] =
   [(Heading, ''\<newline>### A\<newline>''),
    (PkgLine, ''\<newline>> Package `base/a`\<newline>\<newline>''),
    (FenceOpen, ''```go\<newline>''),
    (SourceAt, ''// source at a/f1.go\<newline>''),
    (Sig, ''func Foo(a int) string\<newline>'')]"
  by code_simp

theorem missing_fragment_not_error_witness:
  "no_fragment sample_opts sample_fs partDocTplS ''a'' \<and>
   bufWriteDoc sample_opts sample_fs [] partDocTplS ''a'' = [] \<and>
   (\<exists>st'. collectFile sample_opts sample_fs ''base'' (collector0 []) ''a/f1.go'' = Inr st' \<and>
      buf st' =
        [(Heading, ''\<newline>### A\<newline>''),
         (PkgLine, ''\<newline>> Package `base/a`\<newline>\<newline>''),
         (FenceOpen, ''```go\<newline>''),
         (SourceAt, ''// source at a/f1.go\<newline>''),
         (Sig, ''func Foo(a int) string\<newline>'')]) \<and>
   (\<exists>st'. collectPgkFunc sample_opts sample_fs [''a/f1.go'', ''a/f2.go''] ''base'' = Inr st' \<and>
      buf st' =
        [(Heading, ''\<newline>### A\<newline>''),
         (PkgLine, ''\<newline>> Package `base/a`\<newline>\<newline>''),
         (FenceOpen, ''```go\<newline>''),
         (SourceAt, ''// source at a/f1.go\<newline>''),
         (Sig, ''func Foo(a int) string\<newline>''),
         (FenceClose, ''```\<newline>'')])"
proof -
  note inst = missing_fragment_not_error
    [of sample_opts sample_fs partDocTplS "''a''" "[]" "''a/f1.go''"
        "''package a\<newline>\<newline>func Foo(a int) string {\<newline>func bar(a int) {\<newline>''"
        "collector0 []" "''base''" "[''a/f1.go'', ''a/f2.go'']" "''a''"]
  have hl: "headingLine ''a'' = ''\<newline>### A\<newline>''"
    by code_simp
  from inst sample_no_fragment_a
  have "bufWriteDoc sample_opts sample_fs [] partDocTplS ''a'' = []"
    by blast
  moreover from inst sample_first_file
  have "\<exists>st'. collectFile sample_opts sample_fs ''base'' (collector0 []) ''a/f1.go'' = Inr st' \<and>
      buf st' =
        [(Heading, ''\<newline>### A\<newline>''),
         (PkgLine, ''\<newline>> Package `base/a`\<newline>\<newline>''),
         (FenceOpen, ''```go\<newline>''),
         (SourceAt, ''// source at a/f1.go\<newline>''),
         (Sig, ''func Foo(a int) string\<newline>'')]"
    unfolding sample_first_lines by blast
  moreover from inst sample_no_fragment_a sample_package_a
  have "\<exists>st'. collectPgkFunc sample_opts sample_fs [''a/f1.go'', ''a/f2.go''] ''base'' = Inr st' \<and>
      buf st' =
        [(Heading, headingLine ''a''),
         (PkgLine, ''\<newline>> Package `'' @ ''base'' @ ''/'' @ ''a'' @ ''`\<newline>\<newline>''),
         (FenceOpen, ''```go\<newline>'')] @
        concat (map (\<lambda>g. writeFuncs g (the (sample_fs g)) []) [''a/f1.go'', ''a/f2.go'']) @
        [(FenceClose, ''```\<newline>'')]"
    by blast
  ultimately show ?thesis
    using sample_no_fragment_a unfolding sample_lines_a hl by simp
qed

section \<open>The sections of the output\<close>

lemma bufWriteDoc_fragment: "bufWriteDoc opts fs b tpl n = b @ fragment opts fs tpl n"
  by (simp add: bufWriteDoc_lookup fragment_def fsutil_ReadExistFile_def Let_def)

lemma sectionStart_new:
  "map_of (pkgFuncs st) (basePkg @ ''/'' @ dir) = None \<Longrightarrow>
   sectionStart opts fs basePkg st dir =
     (if pkgFuncs st \<noteq> [] then sectionFoot opts fs (dirname st) else []) @
     sectionHead opts fs basePkg dir"
  by (simp add: sectionStart_def sectionFoot_def sectionHead_def bufWriteDoc_fragment [of _ _ "[]", simplified])

lemma sectionStart_old:
  "map_of (pkgFuncs st) (basePkg @ ''/'' @ dir) \<noteq> None \<Longrightarrow> sectionStart opts fs basePkg st dir = []"
  by (simp add: sectionStart_def)

lemma pkgPath_in_sections:
  assumes "fst ` set (pkgFuncs st) = (\<lambda>d. basePkg @ ''/'' @ d) ` fst ` set secs"
  shows "map_of (pkgFuncs st) (basePkg @ ''/'' @ dir) = None \<longleftrightarrow> dir \<notin> fst ` set secs"
  using assms by (auto simp: map_of_eq_None_iff)

lemma fileLines_snoc: "fileLines fs (files @ [f]) = fileLines fs files @ writeFuncs f (the (fs f)) []"
  by (simp add: fileLines_def)

lemma sections_split:
  "secs \<noteq> [] \<Longrightarrow>
   concat (map g secs) = concat (map g (butlast secs)) @ g (last secs)"
  by (induction secs rule: rev_induct) simp_all

lemma fst_set_addFile: "fst ` set (addFile secs f) = insert (pkgKey f) (fst ` set secs)"
proof (cases "pkgKey f \<in> fst ` set secs")
  case False
  then show ?thesis by (simp add: addFile_def)
next
  case True
  then have ne: "secs \<noteq> []" by auto
  then have "secs = butlast secs @ [last secs]" by simp
  then have "fst ` set secs = fst ` set (butlast secs) \<union> {fst (last secs)}"
    by (metis Un_insert_right image_Un image_insert image_empty list.simps(15) set_append
        sup_bot.right_neutral empty_set)
  with True show ?thesis by (auto simp: addFile_def)
qed

lemma sections_inv_collectFile:
  assumes "collectFile opts fs basePkg st f = Inr st'" and "sections_inv opts fs basePkg secs st"
  shows "sections_inv opts fs basePkg (if processed f then addFile secs f else secs) st'"
proof -
  from collectFile_InrD [OF assms(1)] show ?thesis
  proof
    assume "\<not> processed f \<and> st' = st"
    with assms(2) show ?thesis by simp
  next
    assume p: "processed f \<and> CHR ''/'' \<in> set f \<and> fs f \<noteq> None"
    then obtain body where body: "fs f = Some body" by auto
    let ?dir = "pkgKey f"
    from collectFile_processed [where f = f and fs = fs and st = st and opts = opts and basePkg = basePkg,
        OF _ _ body] p assms(1)
    have b: "buf st' = buf st @ sectionStart opts fs basePkg st ?dir @ writeFuncs f body []"
      and k: "fst ` set (pkgFuncs st') = insert (basePkg @ ''/'' @ ?dir) (fst ` set (pkgFuncs st))"
      and d: "dirname st' = (if map_of (pkgFuncs st) (basePkg @ ''/'' @ ?dir) = None then ?dir else dirname st)"
      by auto
    from assms(2) have keys: "fst ` set (pkgFuncs st) = (\<lambda>d. basePkg @ ''/'' @ d) ` fst ` set secs"
      and emp: "secs = [] \<Longrightarrow> buf st = []"
      and dn: "secs \<noteq> [] \<Longrightarrow> dirname st = fst (last secs)"
      and bf: "secs \<noteq> [] \<Longrightarrow> buf st = concat (map (sectionText opts fs basePkg) (butlast secs)) @
                 sectionHead opts fs basePkg (fst (last secs)) @ fileLines fs (snd (last secs))"
      by (simp_all add: sections_inv_def)
    note unseen = pkgPath_in_sections [OF keys, of ?dir]
    have pf: "pkgFuncs st \<noteq> [] \<longleftrightarrow> secs \<noteq> []"
      using keys by auto
    have keys': "fst ` set (pkgFuncs st') = (\<lambda>d. basePkg @ ''/'' @ d) ` fst ` set (addFile secs f)"
      unfolding k keys fst_set_addFile by simp
    have ne': "addFile secs f \<noteq> []"
      by (simp add: addFile_def)
    show ?thesis
    proof (cases "?dir \<in> fst ` set secs")
      case True
      then have ne: "secs \<noteq> []" by auto
      from True unseen have old: "map_of (pkgFuncs st) (basePkg @ ''/'' @ ?dir) \<noteq> None" by simp
      have af: "addFile secs f = butlast secs @ [(fst (last secs), snd (last secs) @ [f])]"
        using True by (simp add: addFile_def)
      have "buf st' = concat (map (sectionText opts fs basePkg) (butlast secs)) @
                 sectionHead opts fs basePkg (fst (last secs)) @ fileLines fs (snd (last secs) @ [f])"
        unfolding b sectionStart_old [OF old] bf [OF ne] fileLines_snoc using body by simp
      moreover have "dirname st' = fst (last secs)"
        using d old dn [OF ne] by auto
      ultimately show ?thesis
        using p keys' unfolding sections_inv_def af by simp
    next
      case False
      with unseen have new: "map_of (pkgFuncs st) (basePkg @ ''/'' @ ?dir) = None" by simp
      have af: "addFile secs f = secs @ [(?dir, [f])]"
        using False by (simp add: addFile_def)
      have "buf st' = concat (map (sectionText opts fs basePkg) secs) @
                 sectionHead opts fs basePkg ?dir @ fileLines fs [f]"
      proof (cases "secs = []")
        case True
        with pf have "pkgFuncs st = []" by simp
        with True emp body show ?thesis
          unfolding b sectionStart_new [OF new] by (simp add: fileLines_def)
      next
        case ne: False
        with pf have "pkgFuncs st \<noteq> []" by simp
        with ne body show ?thesis
          unfolding b sectionStart_new [OF new] bf [OF ne] dn [OF ne]
            sections_split [OF ne, of "sectionText opts fs basePkg"]
          by (simp add: fileLines_def sectionText_def)
      qed
      moreover have "dirname st' = ?dir"
        using d new by simp
      ultimately show ?thesis
        using p keys' unfolding sections_inv_def af by simp
    qed
  qed
qed

lemma sections_inv_collectLoop:
  "collectLoop opts fs basePkg st ms = Inr st' \<Longrightarrow> sections_inv opts fs basePkg secs st \<Longrightarrow>
   sections_inv opts fs basePkg (foldl addFile secs (filter processed ms)) st'"
proof (induction ms arbitrary: st secs)
  case Nil
  then show ?case by simp
next
  case (Cons f ms)
  from Cons.prems(1) obtain st1 where
    step: "collectFile opts fs basePkg st f = Inr st1" and
    loop: "collectLoop opts fs basePkg st1 ms = Inr st'"
    by (auto split: sum.splits)
  from sections_inv_collectFile [OF step Cons.prems(2)]
  have "sections_inv opts fs basePkg (if processed f then addFile secs f else secs) st1" .
  from Cons.IH [OF loop this] show ?case by (cases "processed f") simp_all
qed

lemma collect_output:
  assumes "collectPgkFunc opts fs ms basePkg = Inr st"
  shows "buf st = concat (map (sectionText opts fs basePkg) (sectionsOf ms))"
proof -
  from assms obtain st' where loop: "collectLoop opts fs basePkg (collector0 []) ms = Inr st'"
    and st: "st = finish opts fs st'"
    by (auto simp: collectPgkFunc_def split: sum.splits)
  have "sections_inv opts fs basePkg [] (collector0 [])"
    by (simp add: sections_inv_def collector0_def)
  from sections_inv_collectLoop [OF loop this]
  have inv: "sections_inv opts fs basePkg (sectionsOf ms) st'"
    by (simp add: sectionsOf_def)
  show ?thesis
  proof (cases "sectionsOf ms = []")
    case True
    with inv have "buf st' = []" "pkgFuncs st' = []"
      by (auto simp: sections_inv_def)
    with True show ?thesis unfolding st buf_finish by simp
  next
    case False
    with inv have "pkgFuncs st' \<noteq> []" "dirname st' = fst (last (sectionsOf ms))"
      "buf st' = concat (map (sectionText opts fs basePkg) (butlast (sectionsOf ms))) @
                 sectionHead opts fs basePkg (fst (last (sectionsOf ms))) @
                 fileLines fs (snd (last (sectionsOf ms)))"
      by (auto simp: sections_inv_def)
    then show ?thesis
      unfolding st buf_finish sections_split [OF False, of "sectionText opts fs basePkg"]
      by (simp add: sectionText_def sectionFoot_def bufWriteDoc_fragment [of _ _ "[]", simplified])
  qed
qed

section \<open>Extraction, fences and fragments of the assembled output\<close>

lemma one_letter_not_exported: "\<not> exported_decl (''func '' @ u # ''('' @ rest)"
proof
  assume "exported_decl (''func '' @ u # ''('' @ rest)"
  then obtain u' ws args tl where
    eq: "''func '' @ u # ''('' @ rest = ''func '' @ u' # ws @ ''('' @ args @ '')'' @ tl" and
    ws: "ws \<noteq> []" "\<forall>c\<in>set ws. cmatch WordCh c"
    unfolding exported_decl_def by blast
  from ws obtain w ws' where wsc: "ws = w # ws'" by (cases ws) auto
  with eq have "w = CHR ''(''" by simp
  moreover from ws wsc have "cmatch WordCh w" by simp
  ultimately show False using paren_not_word by simp
qed

text \<open>
  Claim C2, as amended. For every file text, the lines \<open>collectPgkFunc\<close> records are
  the matches of its pattern, each with its trailing \<open>{\<close> and spaces trimmed, after one
  source line. Every match is a piece of the text that has the shape of a declaration
  whose name is an uppercase letter followed by at least one more word character, and
  every piece of the text of that shape lies within a match; a declaration whose name is
  a single letter does not have that shape. For the text with the lines
  \<open>func Foo(a int) string {\<close> and \<open>func bar(a int) {\<close> the only signature recorded is
  \<open>func Foo(a int) string\<close>.
\<close>

theorem signature_extraction:
  "writeFuncs filename text b =
     b @ (if FindAllString reg text = [] then []
          else (SourceAt, ''// source at '' @ filename @ ''\<newline>'') #
               map (\<lambda>m. (Sig, strings_TrimRight m ''{ '' @ ''\<newline>'')) (FindAllString reg text)) \<and>
   (\<forall>m\<in>set (FindAllString reg text). exported_decl m \<and> (\<exists>pre post. text = pre @ m @ post)) \<and>
   (\<forall>pre m post. text = pre @ m @ post \<and> exported_decl m \<longrightarrow>
      (\<exists>m'\<in>set (FindAllString reg text). \<exists>p q. m' = p @ m @ q)) \<and>
   \<not> exported_decl (''func '' @ u # ''('' @ rest) \<and>
   written Sig (writeFuncs filename ''func Foo(a int) string {\<newline>func bar(a int) {\<newline>'' []) =
     [''func Foo(a int) string\<newline>'']"
proof (intro conjI)
  show "writeFuncs filename text b =
     b @ (if FindAllString reg text = [] then []
          else (SourceAt, ''// source at '' @ filename @ ''\<newline>'') #
               map (\<lambda>m. (Sig, strings_TrimRight m ''{ '' @ ''\<newline>'')) (FindAllString reg text))"
    by (rule writeFuncs_eq)
  show "\<forall>m\<in>set (FindAllString reg text). exported_decl m \<and> (\<exists>pre post. text = pre @ m @ post)"
    unfolding FindAllString_def using FindAll_reg_sound by blast
  show "\<forall>pre m post. text = pre @ m @ post \<and> exported_decl m \<longrightarrow>
      (\<exists>m'\<in>set (FindAllString reg text). \<exists>p q. m' = p @ m @ q)"
    unfolding FindAllString_def using FindAll_reg_covers by blast
  show "\<not> exported_decl (''func '' @ u # ''('' @ rest)"
    by (rule one_letter_not_exported)
  show "written Sig (writeFuncs filename ''func Foo(a int) string {\<newline>func bar(a int) {\<newline>'' []) =
     [''func Foo(a int) string\<newline>'']"
    unfolding writeFuncs_eq sample_text_matches
    by (simp add: written_def strings_TrimRight_def)
qed

theorem signature_extraction_witness:
  "''func Foo(a int) string {'' \<in> set (FindAllString reg ''func Foo(a int) string {\<newline>func bar(a int) {\<newline>'') \<and>
   exported_decl ''func Foo(a int) string {'' \<and>
   exported_decl ''func Foo(a int)'' \<and>
   (\<exists>m'\<in>set (FindAllString reg ''func Foo(a int) string {\<newline>func bar(a int) {\<newline>'').
      \<exists>p q. m' = p @ ''func Foo(a int)'' @ q)"
proof -
  let ?text = "''func Foo(a int) string {\<newline>func bar(a int) {\<newline>''"
  note ext = signature_extraction [of "''f.go''" ?text "[]" "CHR ''F''" "[]"]
  have mem: "''func Foo(a int) string {'' \<in> set (FindAllString reg ?text)"
    by (simp add: sample_text_matches)
  have decl: "exported_decl ''func Foo(a int)''"
    unfolding exported_decl_def
    by (intro exI [of _ "CHR ''F''"] exI [of _ "''oo''"] exI [of _ "''a int''"] exI [of _ "[]"])
       simp
  have occ: "?text = [] @ ''func Foo(a int)'' @ '' string {\<newline>func bar(a int) {\<newline>''"
    by simp
  from ext mem have "exported_decl ''func Foo(a int) string {''"
    by blast
  moreover from ext occ decl
  have "\<exists>m'\<in>set (FindAllString reg ?text). \<exists>p q. m' = p @ ''func Foo(a int)'' @ q"
    by blast
  ultimately show ?thesis
    using mem decl by blast
qed

text \<open>
  The claim as the spec words it (every declaration whose name starts with an uppercase
  letter is extracted) fails on the file \<open>func F(a int) string {\<close>: the name starts with
  an uppercase letter and nothing is recorded.
\<close>

theorem capital_one_letter_dropped:
  "capital_decl ''func F(a int) string {'' \<and>
   FindAllString reg ''func F(a int) string {\<newline>'' = [] \<and>
   writeFuncs ''f.go'' ''func F(a int) string {\<newline>'' [] = []"
proof -
  have "capital_decl ''func F(a int) string {''"
    unfolding capital_decl_def
    by (intro exI [of _ "CHR ''F''"] exI [of _ "[]"] exI [of _ "''a int''"]
        exI [of _ "'' string {''"]) simp
  moreover have e: "FindAllString reg ''func F(a int) string {\<newline>'' = []"
    by code_simp
  moreover have "writeFuncs ''f.go'' ''func F(a int) string {\<newline>'' [] = []"
    by (simp add: writeFuncs_eq e)
  ultimately show ?thesis by blast
qed

lemma sample_end_run:
  "collectPgkFunc sample_opts sample_fs_end [''fsutil/find.go'', ''strutil/x.go''] ''base'' =
     Inr (projr (collectPgkFunc sample_opts sample_fs_end [''fsutil/find.go'', ''strutil/x.go''] ''base''))"
  by code_simp

lemma sample_end_sections:
  "sectionsOf [''fsutil/find.go'', ''strutil/x.go''] =
     [(''fsutil'', [''fsutil/find.go'']), (''strutil'', [''strutil/x.go''])]"
  by code_simp

lemma sample_end_text:
  "concat (map (sectionText sample_opts sample_fs_end ''base'')
     [(''fsutil'', [''fsutil/find.go'']), (''strutil'', [''strutil/x.go''])]) =
   [(Heading, ''\<newline>### FileSystem\<newline>''),
    (PkgLine, ''\<newline>> Package `base/fsutil`\<newline>\<newline>''),
    (Doc, ''START NOTES\<newline>''),
    (FenceOpen, ''```go\<newline>''),
    (SourceAt, ''// source at fsutil/find.go\<newline>''),
    (Sig, ''func FindFile(dir string) string\<newline>''),
    (FenceClose, ''```\<newline>''),
    (Heading, ''\<newline>### String\<newline>''),
    (PkgLine, ''\<newline>> Package `base/strutil`\<newline>\<newline>''),
    (FenceOpen, ''```go\<newline>''),
    (SourceAt, ''// source at strutil/x.go\<newline>''),
    (Sig, ''func Upper(s string) string\<newline>''),
    (FenceClose, ''```\<newline>''),
    (Doc, ''END OF STR\<newline>'')]"
  by code_simp

text \<open>
  Claim C4. Whenever \<open>collectPgkFunc\<close> returns, the writes in its buffer follow the
  automaton \<open>phase_step\<close> from \<open>Idle\<close> to a state with no open fence, and the buffer is
  the sequence of its sections, each one the heading, the package line, the start
  fragment, the opening fence, the lines of its files, the closing fence and the end
  fragment of the section. So every fence is opened before the lines of its section and
  closed once, with the end fragment after it, where the next section begins or, for
  the last section, by the flush after the loop.
\<close>

theorem fences_open_and_close:
  assumes "collectPgkFunc opts fs ms basePkg = Inr st"
  shows "well_fenced (buf st) \<and>
         buf st = concat (map (sectionText opts fs basePkg) (sectionsOf ms)) \<and>
         (sectionsOf ms \<noteq> [] \<longrightarrow>
            (\<exists>pre. buf st =
               pre @ (FenceClose, ''```\<newline>'') #
                     fragment opts fs partDocTplE (fst (last (sectionsOf ms)))))"
proof (intro conjI impI)
  from assms obtain st' where loop: "collectLoop opts fs basePkg (collector0 []) ms = Inr st'"
    and st: "st = finish opts fs st'"
    by (auto simp: collectPgkFunc_def split: sum.splits)
  have "phase_inv (collector0 [])"
    by (simp add: phase_inv_def collector0_def)
  with loop have "phase_inv st'" by (rule phase_inv_collectLoop)
  then show "well_fenced (buf st)" unfolding st by (rule well_fenced_finish)
next
  show eq: "buf st = concat (map (sectionText opts fs basePkg) (sectionsOf ms))"
    using assms by (rule collect_output)
  assume ne: "sectionsOf ms \<noteq> []"
  let ?l = "last (sectionsOf ms)"
  have "buf st =
          (concat (map (sectionText opts fs basePkg) (butlast (sectionsOf ms))) @
           sectionHead opts fs basePkg (fst ?l) @ fileLines fs (snd ?l)) @
          (FenceClose, ''```\<newline>'') # fragment opts fs partDocTplE (fst ?l)"
    unfolding eq sections_split [OF ne, of "sectionText opts fs basePkg"]
    by (simp add: sectionText_def sectionFoot_def)
  then show "\<exists>pre. buf st =
               pre @ (FenceClose, ''```\<newline>'') # fragment opts fs partDocTplE (fst ?l)"
    by blast
qed

theorem fences_open_and_close_witness:
  "collectPgkFunc sample_opts sample_fs_end [''fsutil/find.go'', ''strutil/x.go''] ''base'' =
     Inr (projr (collectPgkFunc sample_opts sample_fs_end [''fsutil/find.go'', ''strutil/x.go''] ''base'')) \<and>
   well_fenced (buf (projr (collectPgkFunc sample_opts sample_fs_end
     [''fsutil/find.go'', ''strutil/x.go''] ''base''))) \<and>
   buf (projr (collectPgkFunc sample_opts sample_fs_end [''fsutil/find.go'', ''strutil/x.go''] ''base'')) =
   [(Heading, ''\<newline>### FileSystem\<newline>''),
    (PkgLine, ''\<newline>> Package `base/fsutil`\<newline>\<newline>''),
    (Doc, ''START NOTES\<newline>''),
    (FenceOpen, ''```go\<newline>''),
    (SourceAt, ''// source at fsutil/find.go\<newline>''),
    (Sig, ''func FindFile(dir string) string\<newline>''),
    (FenceClose, ''```\<newline>''),
    (Heading, ''\<newline>### String\<newline>''),
    (PkgLine, ''\<newline>> Package `base/strutil`\<newline>\<newline>''),
    (FenceOpen, ''```go\<newline>''),
    (SourceAt, ''// source at strutil/x.go\<newline>''),
    (Sig, ''func Upper(s string) string\<newline>''),
    (FenceClose, ''```\<newline>''),
    (Doc, ''END OF STR\<newline>'')] \<and>
   (\<exists>pre. buf (projr (collectPgkFunc sample_opts sample_fs_end
              [''fsutil/find.go'', ''strutil/x.go''] ''base'')) =
      pre @ [(FenceClose, ''```\<newline>''), (Doc, ''END OF STR\<newline>'')])"
proof -
  note inst = fences_open_and_close [OF sample_end_run]
  have ne: "sectionsOf [''fsutil/find.go'', ''strutil/x.go''] \<noteq> []"
    by (simp add: sample_end_sections)
  have fr: "fragment sample_opts sample_fs_end partDocTplE
              (fst (last (sectionsOf [''fsutil/find.go'', ''strutil/x.go'']))) =
            [(Doc, ''END OF STR\<newline>'')]"
    unfolding sample_end_sections by code_simp
  from inst ne have "\<exists>pre. buf (projr (collectPgkFunc sample_opts sample_fs_end
              [''fsutil/find.go'', ''strutil/x.go''] ''base'')) =
      pre @ [(FenceClose, ''```\<newline>''), (Doc, ''END OF STR\<newline>'')]"
    unfolding fr by blast
  with inst sample_end_run show ?thesis
    unfolding sample_end_sections sample_end_text by blast
qed

lemma fst_set_foldl_addFile:
  "fst ` set (foldl addFile secs files) = fst ` set secs \<union> pkgKey ` set files"
  by (induction files arbitrary: secs) (auto simp: fst_set_addFile)

lemma processed_in_sections:
  "f \<in> set ms \<Longrightarrow> processed f \<Longrightarrow> pkgKey f \<in> fst ` set (sectionsOf ms)"
  by (simp add: sectionsOf_def fst_set_foldl_addFile)

lemma section_parts_in_output:
  assumes "d \<in> fst ` set secs"
  shows "set (sectionHead opts fs basePkg d) \<union> set (sectionFoot opts fs d)
           \<subseteq> set (concat (map (sectionText opts fs basePkg) secs))"
proof -
  from assms obtain sec where "sec \<in> set secs" "fst sec = d" by auto
  then have "set (sectionText opts fs basePkg sec) \<subseteq> set (concat (map (sectionText opts fs basePkg) secs))"
    by auto
  with \<open>fst sec = d\<close> show ?thesis
    by (auto simp: sectionText_def)
qed

lemma fragment_default:
  assumes "lang opts \<noteq> ''en''"
    and "fs (fragmentPath opts tpl n (''.'' @ lang opts)) = None"
    and "fs (fragmentPath opts tpl n []) = Some body" and "body \<noteq> []"
  shows "fragment opts fs tpl n = [(Doc, body @ ''\<newline>'')]"
  using assms by (simp add: fragment_def langSuffix_def)

text \<open>
  Claim C6, as amended. With a language other than \<open>en\<close> configured, for every naming
  template (start or end) and name: when the file of the configured language does not
  exist and the default file does, the content of the default file (with a newline) is
  what \<open>bufWriteDoc\<close> appends; when the file of the configured language exists and is
  not empty, its content is appended and the default file is not used. In the assembled
  output the start fragment of a section is the file named by the package's display name
  and the end fragment is the file named by the package's directory: for every processed
  file, when only the default file of that name exists and is not empty, the output
  includes its content.
\<close>

theorem fragment_fallback:
  assumes "lang opts \<noteq> ''en''"
  shows "(fs (fragmentPath opts tpl pkgName (''.'' @ lang opts)) = None \<and>
          fs (fragmentPath opts tpl pkgName []) = Some body \<longrightarrow>
            bufWriteDoc opts fs b tpl pkgName =
              b @ (if body = [] then [] else [(Doc, body @ ''\<newline>'')])) \<and>
         (fs (fragmentPath opts tpl pkgName (''.'' @ lang opts)) = Some body' \<and> body' \<noteq> [] \<longrightarrow>
            bufWriteDoc opts fs b tpl pkgName = b @ [(Doc, body' @ ''\<newline>'')]) \<and>
         (collectPgkFunc opts fs ms basePkg = Inr st \<and> f \<in> set ms \<and> processed f \<longrightarrow>
            (fs (fragmentPath opts partDocTplS (displayName (pkgKey f)) (''.'' @ lang opts)) = None \<and>
             fs (fragmentPath opts partDocTplS (displayName (pkgKey f)) []) = Some sbody \<and>
             sbody \<noteq> [] \<longrightarrow> (Doc, sbody @ ''\<newline>'') \<in> set (buf st)) \<and>
            (fs (fragmentPath opts partDocTplE (pkgKey f) (''.'' @ lang opts)) = None \<and>
             fs (fragmentPath opts partDocTplE (pkgKey f) []) = Some ebody \<and>
             ebody \<noteq> [] \<longrightarrow> (Doc, ebody @ ''\<newline>'') \<in> set (buf st)))"
proof (intro conjI impI)
  assume "fs (fragmentPath opts tpl pkgName (''.'' @ lang opts)) = None \<and>
          fs (fragmentPath opts tpl pkgName []) = Some body"
  with assms show "bufWriteDoc opts fs b tpl pkgName =
              b @ (if body = [] then [] else [(Doc, body @ ''\<newline>'')])"
    by (simp add: bufWriteDoc_lookup langSuffix_def fsutil_ReadExistFile_def Let_def)
next
  assume "fs (fragmentPath opts tpl pkgName (''.'' @ lang opts)) = Some body' \<and> body' \<noteq> []"
  with assms show "bufWriteDoc opts fs b tpl pkgName = b @ [(Doc, body' @ ''\<newline>'')]"
    by (simp add: bufWriteDoc_lookup langSuffix_def fsutil_ReadExistFile_def Let_def)
next
  assume run: "collectPgkFunc opts fs ms basePkg = Inr st \<and> f \<in> set ms \<and> processed f"
  then have out: "buf st = concat (map (sectionText opts fs basePkg) (sectionsOf ms))"
    by (simp add: collect_output)
  from run have "pkgKey f \<in> fst ` set (sectionsOf ms)"
    by (simp add: processed_in_sections)
  from section_parts_in_output [OF this, of opts fs basePkg]
  have parts: "set (sectionHead opts fs basePkg (pkgKey f)) \<subseteq> set (buf st)"
    "set (sectionFoot opts fs (pkgKey f)) \<subseteq> set (buf st)"
    unfolding out by simp_all
  {
    assume "fs (fragmentPath opts partDocTplS (displayName (pkgKey f)) (''.'' @ lang opts)) = None \<and>
             fs (fragmentPath opts partDocTplS (displayName (pkgKey f)) []) = Some sbody \<and>
             sbody \<noteq> []"
    then have "fragment opts fs partDocTplS (displayName (pkgKey f)) = [(Doc, sbody @ ''\<newline>'')]"
      using assms by (simp add: fragment_default)
    then have "(Doc, sbody @ ''\<newline>'') \<in> set (sectionHead opts fs basePkg (pkgKey f))"
      by (simp add: sectionHead_def)
    with parts(1) show "(Doc, sbody @ ''\<newline>'') \<in> set (buf st)" by blast
  }
  {
    assume "fs (fragmentPath opts partDocTplE (pkgKey f) (''.'' @ lang opts)) = None \<and>
             fs (fragmentPath opts partDocTplE (pkgKey f) []) = Some ebody \<and>
             ebody \<noteq> []"
    then have "fragment opts fs partDocTplE (pkgKey f) = [(Doc, ebody @ ''\<newline>'')]"
      using assms by (simp add: fragment_default)
    then have "(Doc, ebody @ ''\<newline>'') \<in> set (sectionFoot opts fs (pkgKey f))"
      by (simp add: sectionFoot_def)
    with parts(2) show "(Doc, ebody @ ''\<newline>'') \<in> set (buf st)" by blast
  }
qed

text \<open>
  The claim as the spec words it (the end fragment named by the display name) fails for
  the directory \<open>fsutil\<close>, whose display name is \<open>fileSystem\<close>: only the default end
  fragment \<open>part-fileSystem.md\<close> exists, and the output does not include its content.
\<close>

theorem end_fragment_by_directory:
  "lang sample_opts \<noteq> ''en'' \<and>
   displayName ''fsutil'' = ''fileSystem'' \<and>
   sample_fs_end (fragmentPath sample_opts partDocTplE ''fileSystem'' (''.'' @ lang sample_opts)) = None \<and>
   sample_fs_end (fragmentPath sample_opts partDocTplE ''fileSystem'' []) = Some ''END NOTES'' \<and>
   map_sum id buf (collectPgkFunc sample_opts sample_fs_end [''fsutil/find.go''] ''base'') =
     Inr [(Heading, ''\<newline>### FileSystem\<newline>''),
          (PkgLine, ''\<newline>> Package `base/fsutil`\<newline>\<newline>''),
          (Doc, ''START NOTES\<newline>''),
          (FenceOpen, ''```go\<newline>''),
          (SourceAt, ''// source at fsutil/find.go\<newline>''),
          (Sig, ''func FindFile(dir string) string\<newline>''),
          (FenceClose, ''```\<newline>'')]"
  by code_simp

theorem fragment_fallback_witness:
  "lang sample_opts \<noteq> ''en'' \<and>
   sample_fs (fragmentPath sample_opts partDocTplE ''b'' (''.'' @ lang sample_opts)) = None \<and>
   sample_fs (fragmentPath sample_opts partDocTplE ''b'' []) = Some ''notes on b'' \<and>
   bufWriteDoc sample_opts sample_fs [] partDocTplE ''b'' = [(Doc, ''notes on b\<newline>'')] \<and>
   sample_fs_zh (fragmentPath sample_opts partDocTplE ''b'' (''.'' @ lang sample_opts)) = Some ''zh notes on b'' \<and>
   bufWriteDoc sample_opts sample_fs_zh [] partDocTplE ''b'' = [(Doc, ''zh notes on b\<newline>'')] \<and>
   collectPgkFunc sample_opts sample_fs_end [''fsutil/find.go'', ''strutil/x.go''] ''base'' =
     Inr (projr (collectPgkFunc sample_opts sample_fs_end [''fsutil/find.go'', ''strutil/x.go''] ''base'')) \<and>
   (Doc, ''START NOTES\<newline>'') \<in> set (buf (projr (collectPgkFunc sample_opts sample_fs_end
      [''fsutil/find.go'', ''strutil/x.go''] ''base''))) \<and>
   (Doc, ''END OF STR\<newline>'') \<in> set (buf (projr (collectPgkFunc sample_opts sample_fs_end
      [''fsutil/find.go'', ''strutil/x.go''] ''base'')))"
proof -
  let ?ms = "[''fsutil/find.go'', ''strutil/x.go'']"
  let ?st = "projr (collectPgkFunc sample_opts sample_fs_end ?ms ''base'')"
  have l: "lang sample_opts \<noteq> ''en''"
    by (simp add: sample_opts_def)
  have p1: "fragmentPath sample_opts partDocTplE ''b'' (''.'' @ lang sample_opts) = ''tpl/part-b.zh-CN.md''"
    by (simp add: fragmentPath_def sample_opts_def partDocTplE_def)
  have p2: "fragmentPath sample_opts partDocTplE ''b'' [] = ''tpl/part-b.md''"
    by (simp add: fragmentPath_def sample_opts_def partDocTplE_def)
  have a: "sample_fs ''tpl/part-b.zh-CN.md'' = None"
    by (simp add: sample_fs_def)
  have b: "sample_fs ''tpl/part-b.md'' = Some ''notes on b''"
    by (simp add: sample_fs_def)
  have c: "sample_fs_zh ''tpl/part-b.zh-CN.md'' = Some ''zh notes on b''"
    by (simp add: sample_fs_zh_def)
  have s: "''fsutil/find.go'' \<in> set ?ms \<and> processed ''fsutil/find.go'' \<and>
      sample_fs_end (fragmentPath sample_opts partDocTplS (displayName (pkgKey ''fsutil/find.go''))
        (''.'' @ lang sample_opts)) = None \<and>
      sample_fs_end (fragmentPath sample_opts partDocTplS (displayName (pkgKey ''fsutil/find.go'')) []) =
        Some ''START NOTES''"
    by code_simp
  have e: "''strutil/x.go'' \<in> set ?ms \<and> processed ''strutil/x.go'' \<and>
      sample_fs_end (fragmentPath sample_opts partDocTplE (pkgKey ''strutil/x.go'')
        (''.'' @ lang sample_opts)) = None \<and>
      sample_fs_end (fragmentPath sample_opts partDocTplE (pkgKey ''strutil/x.go'') []) =
        Some ''END OF STR''"
    by code_simp
  from fragment_fallback [OF l, of sample_fs_end partDocTplE "''b''" "[]" "[]" "[]" ?ms "''base''" ?st
      "''fsutil/find.go''" "''START NOTES''" "[]"] sample_end_run s
  have r1: "(Doc, ''START NOTES\<newline>'') \<in> set (buf ?st)"
    by simp
  from fragment_fallback [OF l, of sample_fs_end partDocTplE "''b''" "[]" "[]" "[]" ?ms "''base''" ?st
      "''strutil/x.go''" "[]" "''END OF STR''"] sample_end_run e
  have r2: "(Doc, ''END OF STR\<newline>'') \<in> set (buf ?st)"
    by simp
  from fragment_fallback [OF l, of sample_fs partDocTplE "''b''" "''notes on b''" "[]" "[]"]
       fragment_fallback [OF l, of sample_fs_zh partDocTplE "''b''" "[]" "[]" "''zh notes on b''"]
       l a b c r1 r2 sample_end_run
  show ?thesis
    unfolding p1 p2 by simp
qed

end
